theory Spec2Isabelle
  imports Complex_Main "HOL-Library.Sublist"
begin

section \<open>Strings\<close>

text \<open>
  Source strings are modelled as \<open>string\<close>. The three string primitives the library
  uses are \<open>toLowerCase\<close>, \<open>includes\<close> and \<open>lastIndexOf\<close>/\<open>slice\<close>. Lower-casing
  is modelled on the ASCII letters: \<open>A\<close> .. \<open>Z\<close> go to \<open>a\<close> .. \<open>z\<close>, every other
  character is left as it is. The proofs below use of \<open>toLowerCase\<close> only that it is
  a function of the string and that it maps the empty string to itself; which letters
  it changes matters only where a concrete input is evaluated.
\<close>

definition toLowerChar :: "char \<Rightarrow> char" where
  "toLowerChar c =
     (let n = (of_char c :: nat)
      in if 65 \<le> n \<and> n \<le> 90 then char_of (n + 32) else c)"

definition toLowerCase :: "string \<Rightarrow> string" where
  "toLowerCase s = map toLowerChar s"

text \<open>\<open>haystack.includes(needle)\<close>: some position of the haystack starts with the needle.\<close>

fun includes_str :: "string \<Rightarrow> string \<Rightarrow> bool" where
  "includes_str [] needle = (needle = [])"
| "includes_str (c # cs) needle = (prefix needle (c # cs) \<or> includes_str cs needle)"

text \<open>
  \<open>s.lastIndexOf(needle)\<close>: the search runs from the end of the string towards
  position 0 and returns the first position at which the needle starts, or \<open>-1\<close>.
\<close>

fun lastIndexOf_from :: "string \<Rightarrow> string \<Rightarrow> nat \<Rightarrow> int" where
  "lastIndexOf_from s needle 0 = (if prefix needle s then 0 else - 1)"
| "lastIndexOf_from s needle (Suc k) =
     (if prefix needle (drop (Suc k) s) then int (Suc k) else lastIndexOf_from s needle k)"

definition lastIndexOf :: "string \<Rightarrow> string \<Rightarrow> int" where
  "lastIndexOf s needle = lastIndexOf_from s needle (length s)"

text \<open>
  \<open>s.slice(start)\<close>: a negative start counts from the end; the start is clamped to
  the string.
\<close>

definition slice_from :: "string \<Rightarrow> int \<Rightarrow> string" where
  "slice_from s start =
     (let len = int (length s);
          k = (if start < 0 then max (len + start) 0 else min start len)
      in drop (nat k) s)"

section \<open>Numbers\<close>

text \<open>
  A value of the source's \<open>number\<close> type is a double: every finite double is a
  rational, and there are three values that are not finite.
\<close>

datatype number = Finite rat | NaN | PosInfinity | NegInfinity

fun Number_isInteger :: "number \<Rightarrow> bool" where
  "Number_isInteger (Finite q) = (of_int \<lfloor>q\<rfloor> = q)"
| "Number_isInteger _ = False"

text \<open>The comparison \<open>a < b\<close> on numbers; any comparison with \<open>NaN\<close> is false.\<close>

fun lessThan_number :: "number \<Rightarrow> number \<Rightarrow> bool" where
  "lessThan_number (Finite a) (Finite b) = (a < b)"
| "lessThan_number (Finite a) PosInfinity = True"
| "lessThan_number NegInfinity (Finite b) = True"
| "lessThan_number NegInfinity PosInfinity = True"
| "lessThan_number _ _ = False"

text \<open>
  \<open>xs.slice(0, end)\<close> on an array: \<open>end\<close> is truncated towards zero (\<open>NaN\<close> counts as 0),
  a negative end counts from the end of the array, and the end is clamped to the array.
\<close>

fun slice_to :: "'a list \<Rightarrow> number \<Rightarrow> 'a list" where
  "slice_to xs (Finite q) =
     (let len = int (length xs);
          e = (if q < 0 then - \<lfloor>- q\<rfloor> else \<lfloor>q\<rfloor>);
          k = (if e < 0 then max (len + e) 0 else min e len)
      in take (nat k) xs)"
| "slice_to xs NaN = []"
| "slice_to xs PosInfinity = xs"
| "slice_to xs NegInfinity = []"

section \<open>Domain types (types.ts)\<close>

record JournalEndpoint =
  name_JournalEndpoint :: string
  url :: string

record Journal =
  id_Journal :: string
  displayName :: string
  endpoints :: "JournalEndpoint list"

record Article =
  id_Article :: string
  title :: string
  abstract_Article :: string
  fullText :: string
  supplementaryUrl :: string

record SupplementaryFile =
  name_File :: string
  localPath :: string
  sizeBytes :: number

record SupplementaryBundle =
  articleId :: string
  articleTitle :: string
  files :: "SupplementaryFile list"
  tempDir :: string

section \<open>KeywordScanner (keyword-scanner.ts)\<close>

text \<open>
  The scanner's only state is its keyword list, so a scanner is that list;
  the constructor and \<open>setKeywords\<close> both store the list they are given.
\<close>

type_synonym KeywordScanner = "string list"

definition KeywordScanner :: "string list \<Rightarrow> KeywordScanner" where
  "KeywordScanner keywords = keywords"

definition setKeywords :: "string list \<Rightarrow> KeywordScanner \<Rightarrow> KeywordScanner" where
  "setKeywords keywords scanner = keywords"

definition haystack :: "Article \<Rightarrow> string" where
  "haystack article =
     toLowerCase (title article @ '' '' @ abstract_Article article @ '' '' @ fullText article)"

definition isCandidate :: "KeywordScanner \<Rightarrow> Article \<Rightarrow> bool" where
  "isCandidate keywords article =
     (if length keywords = 0 then False
      else list_ex (\<lambda>kw. includes_str (haystack article) (toLowerCase kw)) keywords)"

definition filterCandidates :: "KeywordScanner \<Rightarrow> Article list \<Rightarrow> Article list" where
  "filterCandidates keywords articles = filter (\<lambda>a. isCandidate keywords a) articles"

section \<open>CodeFileIdentifier (code-file-identifier.ts)\<close>

definition DEFAULT_CODE_EXTENSIONS :: "string list" where
  "DEFAULT_CODE_EXTENSIONS =
     [''.py'', ''.r'', ''.rmd'', ''.m'', ''.jl'', ''.js'', ''.ts'', ''.java'', ''.c'',
      ''.cpp'', ''.cs'', ''.go'', ''.rb'', ''.sh'', ''.pl'', ''.scala'', ''.kt'', ''.rs'',
      ''.swift'', ''.f90'', ''.f95'', ''.lua'', ''.sql'', ''.ipynb'']"

text \<open>
  The identifier's only state is its set of extensions. The constructor and
  \<open>setExtensions\<close> both lower-case every extension they are given before storing it.
  A constructor call without an argument is the call with \<open>DEFAULT_CODE_EXTENSIONS\<close>.
\<close>

type_synonym CodeFileIdentifier = "string set"

definition CodeFileIdentifier :: "string list \<Rightarrow> CodeFileIdentifier" where
  "CodeFileIdentifier extensions = set (map toLowerCase extensions)"

definition setExtensions :: "string list \<Rightarrow> CodeFileIdentifier \<Rightarrow> CodeFileIdentifier" where
  "setExtensions extensions identifier = set (map toLowerCase extensions)"

definition isCodeFile :: "CodeFileIdentifier \<Rightarrow> string \<Rightarrow> bool" where
  "isCodeFile extensions filename =
     (let lastDot = lastIndexOf filename ''.''
      in if lastDot \<le> 0 \<or> lastDot = int (length filename) - 1 then False
         else toLowerCase (slice_from filename lastDot) \<in> extensions)"

definition identifyCodeFiles ::
  "CodeFileIdentifier \<Rightarrow> SupplementaryBundle \<Rightarrow> SupplementaryFile list" where
  "identifyCodeFiles extensions bundle =
     filter (\<lambda>f. isCodeFile extensions (name_File f)) (files bundle)"

section \<open>JournalRegistry (registry.ts)\<close>

text \<open>
  The registry's state is a \<open>Map\<close> from strings to journals, which keeps its entries in
  insertion order: it is modelled as the list of its entries. \<open>Map_set\<close> overwrites
  the value of a key that is present where it stands and appends a new key at the end.
\<close>

type_synonym JournalRegistry = "(string \<times> Journal) list"

fun Map_set :: "'k \<Rightarrow> 'v \<Rightarrow> ('k \<times> 'v) list \<Rightarrow> ('k \<times> 'v) list" where
  "Map_set k v [] = [(k, v)]"
| "Map_set k v ((k', v') # m) = (if k' = k then (k, v) # m else (k', v') # Map_set k v m)"

definition Map_has :: "'k \<Rightarrow> ('k \<times> 'v) list \<Rightarrow> bool" where
  "Map_has k m = list_ex (\<lambda>entry. fst entry = k) m"

definition Map_delete :: "'k \<Rightarrow> ('k \<times> 'v) list \<Rightarrow> bool \<times> ('k \<times> 'v) list" where
  "Map_delete k m = (Map_has k m, filter (\<lambda>entry. fst entry \<noteq> k) m)"

definition Map_get :: "'k \<Rightarrow> ('k \<times> 'v) list \<Rightarrow> 'v option" where
  "Map_get k m = map_of m k"

text \<open>\<open>new Map(entries)\<close> sets the entries one after the other, from the first.\<close>

definition Map_new :: "('k \<times> 'v) list \<Rightarrow> ('k \<times> 'v) list" where
  "Map_new entries = fold (\<lambda>(k, v) m. Map_set k v m) entries []"

definition JournalRegistry :: "Journal list \<Rightarrow> JournalRegistry" where
  "JournalRegistry initial = Map_new (map (\<lambda>j. (id_Journal j, j)) initial)"

definition register :: "Journal \<Rightarrow> JournalRegistry \<Rightarrow> JournalRegistry" where
  "register journal journals = Map_set (id_Journal journal) journal journals"

text \<open>\<open>remove\<close> returns its boolean result together with the registry after the call.\<close>

definition remove :: "string \<Rightarrow> JournalRegistry \<Rightarrow> bool \<times> JournalRegistry" where
  "remove ident journals = Map_delete ident journals"

definition get :: "string \<Rightarrow> JournalRegistry \<Rightarrow> Journal option" where
  "get ident journals = Map_get ident journals"

definition list_Registry :: "JournalRegistry \<Rightarrow> Journal list" where
  "list_Registry journals = map snd journals"

definition hasAny :: "JournalRegistry \<Rightarrow> bool" where
  "hasAny journals = (length journals > 0)"

text \<open>
  What every registry built by the constructor and changed by \<open>register\<close> and
  \<open>remove\<close> satisfies: every entry is stored under the id of its journal, and no
  key occurs twice. The field is private, so these are the only registries there are.
\<close>

definition keyedById :: "JournalRegistry \<Rightarrow> bool" where
  "keyedById journals =
     (list_all (\<lambda>entry. fst entry = id_Journal (snd entry)) journals
      \<and> distinct (map fst journals))"

section \<open>Collaborators and promises\<close>

text \<open>
  The orchestrators throw two errors of their own; every other failure is a value a
  collaborator threw or rejected its promise with.
\<close>

datatype 'e error = EmptyRegistryError | MaxBundlesError number | Reason 'e

text \<open>
  A promise is modelled by how it settles (rejected with a reason, \<open>Inl\<close>, or fulfilled
  with a value, \<open>Inr\<close>) and by when it settles. The time exists only to order the
  settlements of the promises that are awaited together.
\<close>

datatype ('e, 'a) promise = Promise (settledAt: nat) (outcome: "'e + 'a")

text \<open>
  A collaborator is an injected asynchronous function (\<open>FetchArticlesFn\<close>,
  \<open>DownloadBundleFn\<close>): called with an argument it returns a promise. What it returns
  may depend on the calls made to it before, so it is given the log of these calls.
  \<open>invoke\<close> calls it and appends the argument to the log, so the log after an
  orchestrator has run tells which calls the orchestrator made, and in which order.
\<close>

type_synonym ('x, 'e, 'a) collaborator = "'x list \<Rightarrow> 'x \<Rightarrow> ('e error, 'a) promise"

definition invoke ::
  "('x, 'e, 'a) collaborator \<Rightarrow> 'x \<Rightarrow> 'x list \<Rightarrow> ('e error, 'a) promise \<times> 'x list" where
  "invoke fn x calls = (fn calls x, calls @ [x])"

text \<open>
  \<open>xs.map(callback)\<close> with a callback that has an effect on the call log and never
  throws, as an \<open>async\<close> callback does.
\<close>

fun Array_map :: "('x \<Rightarrow> 's \<Rightarrow> 'p \<times> 's) \<Rightarrow> 'x list \<Rightarrow> 's \<Rightarrow> 'p list \<times> 's" where
  "Array_map callback [] s = ([], s)"
| "Array_map callback (x # xs) s =
     (let (p, s1) = callback x s;
          (ps, s2) = Array_map callback xs s1
      in (p # ps, s2))"

text \<open>
  \<open>fetchArticles\<close> is called inside an \<open>async\<close> callback, where an error thrown by the
  call rejects the promise of the callback: for it, a call that throws is a call that
  returns a rejected promise, and the type above says all it can do.
  \<open>downloadBundle\<close> is called by a plain arrow function, so there it matters whether
  the call throws before it returns a promise: \<open>Inl e\<close> is a call that throws \<open>e\<close>,
  \<open>Inr p\<close> a call that returns the promise \<open>p\<close>.
\<close>

type_synonym ('x, 'e, 'a) throwingCollaborator =
  "'x list \<Rightarrow> 'x \<Rightarrow> 'e error + ('e error, 'a) promise"

definition invokeThrowing ::
  "('x, 'e, 'a) throwingCollaborator \<Rightarrow> 'x \<Rightarrow> 'x list
     \<Rightarrow> ('e error + ('e error, 'a) promise) \<times> 'x list" where
  "invokeThrowing fn x calls = (fn calls x, calls @ [x])"

text \<open>
  \<open>xs.map(callback)\<close> with a callback that may throw: the first call that throws ends
  the map with that error, and the callback is not called on the elements after it.
\<close>

fun Array_map_throwing ::
  "('x \<Rightarrow> 's \<Rightarrow> ('t + 'p) \<times> 's) \<Rightarrow> 'x list \<Rightarrow> 's \<Rightarrow> ('t + 'p list) \<times> 's" where
  "Array_map_throwing callback [] s = (Inr [], s)"
| "Array_map_throwing callback (x # xs) s =
     (case callback x s of
        (Inl e, s1) \<Rightarrow> (Inl e, s1)
      | (Inr p, s1) \<Rightarrow>
          (case Array_map_throwing callback xs s1 of
             (Inl e, s2) \<Rightarrow> (Inl e, s2)
           | (Inr ps, s2) \<Rightarrow> (Inr (p # ps), s2)))"

text \<open>
  \<open>Promise.all\<close>: when no promise is rejected, the values in the order of the promises;
  otherwise the reason of the rejected promise that settles first (of two that settle
  at the same time, the one that comes first in the list).
\<close>

fun firstRejected :: "('e, 'a) promise list \<Rightarrow> (nat \<times> 'e) option" where
  "firstRejected [] = None"
| "firstRejected (p # ps) =
     (case outcome p of
        Inr v \<Rightarrow> firstRejected ps
      | Inl e \<Rightarrow>
          (case firstRejected ps of
             None \<Rightarrow> Some (settledAt p, e)
           | Some (t, e') \<Rightarrow> if settledAt p \<le> t then Some (settledAt p, e) else Some (t, e')))"

fun fulfilledValues :: "('e, 'a) promise list \<Rightarrow> 'a list" where
  "fulfilledValues [] = []"
| "fulfilledValues (p # ps) =
     (case outcome p of Inr v \<Rightarrow> v # fulfilledValues ps | Inl e \<Rightarrow> fulfilledValues ps)"

definition Promise_all :: "('e, 'a) promise list \<Rightarrow> 'e + 'a list" where
  "Promise_all ps =
     (case firstRejected ps of
        Some (t, e) \<Rightarrow> Inl e
      | None \<Rightarrow> Inr (fulfilledValues ps))"

text \<open>
  An \<open>async\<close> callback that awaits a promise and then returns a value computed from
  the awaited one: its promise is rejected as the awaited one, or fulfilled with
  the computed value.
\<close>

definition thenReturn :: "('a \<Rightarrow> 'b) \<Rightarrow> ('e, 'a) promise \<Rightarrow> ('e, 'b) promise" where
  "thenReturn f p =
     (case outcome p of
        Inl e \<Rightarrow> Promise (settledAt p) (Inl e)
      | Inr v \<Rightarrow> Promise (settledAt p) (Inr (f v)))"

section \<open>identifyCandidates (candidate-identification.ts)\<close>

record 'e IdentifyCandidatesOptions =
  registry :: JournalRegistry
  scanner :: KeywordScanner
  fetchArticles :: "(string \<times> number, 'e, Article list) collaborator"
  page :: "number option"

record JournalCandidateResult =
  journalId :: string
  candidates_Result :: "Article list"

text \<open>
  The orchestrator takes the log of the calls made to the fetch collaborator so far
  and returns how its own promise settles together with the log after the call.
\<close>

definition identifyCandidates ::
  "'e IdentifyCandidatesOptions \<Rightarrow> (string \<times> number) list
     \<Rightarrow> ('e error + JournalCandidateResult list) \<times> (string \<times> number) list" where
  "identifyCandidates options calls =
     (let pg = (case page options of None \<Rightarrow> Finite 1 | Some n \<Rightarrow> n)
      in if \<not> hasAny (registry options) then (Inl EmptyRegistryError, calls)
         else
           let journals = list_Registry (registry options);
               (results, calls') =
                 Array_map
                   (\<lambda>journal log.
                      let (articles, log') = invoke (fetchArticles options) (id_Journal journal, pg) log
                      in (thenReturn
                            (\<lambda>fetched.
                               \<lparr>journalId = id_Journal journal,
                                candidates_Result = filterCandidates (scanner options) fetched\<rparr>)
                            articles,
                          log'))
                   journals calls
           in (Promise_all results, calls'))"

section \<open>downloadBundles (bundle-downloader.ts)\<close>

definition DEFAULT_MAX_BUNDLES :: number where
  "DEFAULT_MAX_BUNDLES = Finite 10"

record 'e DownloadBundlesOptions =
  candidates :: "Article list"
  downloadBundle :: "(Article, 'e, SupplementaryBundle) throwingCollaborator"
  maxBundles :: "number option"

text \<open>
  The orchestrator takes the log of the calls made to the download collaborator so far
  and returns how its own promise settles together with the log after the call. An
  error thrown inside the \<open>async\<close> function, by the guard or by \<open>map\<close>, rejects its
  promise with that error.
\<close>

definition downloadBundles ::
  "'e DownloadBundlesOptions \<Rightarrow> Article list
     \<Rightarrow> ('e error + SupplementaryBundle list) \<times> Article list" where
  "downloadBundles options calls =
     (let maxB = (case maxBundles options of None \<Rightarrow> DEFAULT_MAX_BUNDLES | Some n \<Rightarrow> n)
      in if \<not> Number_isInteger maxB \<or> lessThan_number maxB (Finite 1)
         then (Inl (MaxBundlesError maxB), calls)
         else
           let batch = slice_to (candidates options) maxB
           in (case Array_map_throwing
                      (\<lambda>article log. invokeThrowing (downloadBundle options) article log)
                      batch calls of
                 (Inl thrown, calls') \<Rightarrow> (Inl thrown, calls')
               | (Inr bundles, calls') \<Rightarrow> (Promise_all bundles, calls')))"

section \<open>Properties of the string primitives\<close>

lemma includes_sublist: "includes_str s needle = sublist needle s"
  by (induction s) (simp_all add: sublist_Cons_right)

lemma toLowerCase_Nil: "toLowerCase [] = []"
  by (simp add: toLowerCase_def)

lemma includes_Nil: "includes_str s []"
  by (simp add: includes_sublist)

section \<open>Properties of \<open>lastIndexOf\<close> and \<open>isCodeFile\<close>\<close>

lemma lastIndexOf_from_none:
  "(\<And>i. i \<le> k \<Longrightarrow> \<not> prefix needle (drop i s)) \<Longrightarrow> lastIndexOf_from s needle k = - 1"
proof (induction k)
  case 0
  from 0 [of 0] show ?case by simp
next
  case (Suc k)
  from Suc.prems [of "Suc k"] have "\<not> prefix needle (drop (Suc k) s)" by simp
  moreover have "lastIndexOf_from s needle k = - 1"
    by (rule Suc.IH) (simp add: Suc.prems)
  ultimately show ?case by simp
qed

lemma lastIndexOf_from_found:
  "j \<le> k \<Longrightarrow> prefix needle (drop j s) \<Longrightarrow>
   (\<And>i. j < i \<Longrightarrow> i \<le> k \<Longrightarrow> \<not> prefix needle (drop i s)) \<Longrightarrow>
   lastIndexOf_from s needle k = int j"
proof (induction k)
  case 0
  then show ?case by simp
next
  case (Suc k)
  show ?case
  proof (cases "j = Suc k")
    case True
    with Suc.prems(2) show ?thesis by simp
  next
    case False
    with Suc.prems(1) have jk: "j \<le> k" by simp
    from Suc.prems(3) [of "Suc k"] False Suc.prems(1)
    have "\<not> prefix needle (drop (Suc k) s)" by simp
    moreover have "lastIndexOf_from s needle k = int j"
      by (rule Suc.IH [OF jk Suc.prems(2)]) (simp add: Suc.prems(3))
    ultimately show ?thesis by simp
  qed
qed

lemma prefix_single_mem: "prefix [c] xs \<Longrightarrow> c \<in> set xs"
  by (auto simp: prefix_def)

lemma lastIndexOf_no_dot:
  assumes "CHR ''.'' \<notin> set s"
  shows "lastIndexOf s ''.'' = - 1"
  unfolding lastIndexOf_def
proof (rule lastIndexOf_from_none)
  fix i
  show "\<not> prefix ''.'' (drop i s)"
    using assms prefix_single_mem [of "CHR ''.''" "drop i s"] in_set_dropD by fastforce
qed

lemma lastIndexOf_last_dot:
  assumes "CHR ''.'' \<notin> set ext"
  shows "lastIndexOf (stem @ CHR ''.'' # ext) ''.'' = int (length stem)"
  unfolding lastIndexOf_def
proof (rule lastIndexOf_from_found)
  show "length stem \<le> length (stem @ CHR ''.'' # ext)" by simp
  show "prefix ''.'' (drop (length stem) (stem @ CHR ''.'' # ext))" by simp
  fix i assume "length stem < i"
  then have "drop i (stem @ CHR ''.'' # ext) = drop (i - length stem - 1) ext"
    by (cases "i - length stem") auto
  then show "\<not> prefix ''.'' (drop i (stem @ CHR ''.'' # ext))"
    using assms prefix_single_mem [of "CHR ''.''" "drop (i - length stem - 1) ext"] in_set_dropD
    by fastforce
qed

lemma isCodeFile_no_dot: "CHR ''.'' \<notin> set n \<Longrightarrow> \<not> isCodeFile E n"
  by (simp add: isCodeFile_def lastIndexOf_no_dot)

lemma isCodeFile_split:
  assumes "CHR ''.'' \<notin> set ext"
  shows "isCodeFile E (stem @ CHR ''.'' # ext) \<longleftrightarrow>
           stem \<noteq> [] \<and> ext \<noteq> [] \<and> toLowerCase (CHR ''.'' # ext) \<in> E"
  by (auto simp: isCodeFile_def lastIndexOf_last_dot [OF assms] slice_from_def Let_def)

lemma last_dot_split:
  "CHR ''.'' \<in> set n \<Longrightarrow> \<exists>stem ext. n = stem @ CHR ''.'' # ext \<and> CHR ''.'' \<notin> set ext"
  using split_list_last [of "CHR ''.''" n] by auto

lemma isCodeFile_iff:
  "isCodeFile (CodeFileIdentifier E) n \<longleftrightarrow>
     (\<exists>stem ext. n = stem @ ''.'' @ ext \<and> CHR ''.'' \<notin> set ext \<and> stem \<noteq> [] \<and> ext \<noteq> [] \<and>
        (\<exists>e \<in> set E. toLowerCase e = toLowerCase (''.'' @ ext)))"
proof (cases "CHR ''.'' \<in> set n")
  case False
  then show ?thesis by (auto simp: isCodeFile_no_dot)
next
  case True
  then obtain stem ext where n: "n = stem @ CHR ''.'' # ext" and nd: "CHR ''.'' \<notin> set ext"
    using last_dot_split by blast
  show ?thesis
  proof
    assume "isCodeFile (CodeFileIdentifier E) n"
    with n have "stem \<noteq> [] \<and> ext \<noteq> [] \<and> toLowerCase (CHR ''.'' # ext) \<in> CodeFileIdentifier E"
      using isCodeFile_split [OF nd, of "CodeFileIdentifier E" stem] by blast
    then have ne: "stem \<noteq> []" "ext \<noteq> []"
      and "\<exists>e \<in> set E. toLowerCase e = toLowerCase (CHR ''.'' # ext)"
      unfolding CodeFileIdentifier_def by auto
    then have "n = stem @ ''.'' @ ext \<and> CHR ''.'' \<notin> set ext \<and> stem \<noteq> [] \<and> ext \<noteq> [] \<and>
        (\<exists>e \<in> set E. toLowerCase e = toLowerCase (''.'' @ ext))"
      using n nd by simp
    then show "\<exists>stem ext. n = stem @ ''.'' @ ext \<and> CHR ''.'' \<notin> set ext \<and> stem \<noteq> [] \<and> ext \<noteq> [] \<and>
        (\<exists>e \<in> set E. toLowerCase e = toLowerCase (''.'' @ ext))"
      by blast
  next
    assume "\<exists>stem ext. n = stem @ ''.'' @ ext \<and> CHR ''.'' \<notin> set ext \<and> stem \<noteq> [] \<and> ext \<noteq> [] \<and>
        (\<exists>e \<in> set E. toLowerCase e = toLowerCase (''.'' @ ext))"
    then obtain stem' ext' e where n': "n = stem' @ CHR ''.'' # ext'" and nd': "CHR ''.'' \<notin> set ext'"
      and ne: "stem' \<noteq> []" "ext' \<noteq> []" and e: "e \<in> set E" "toLowerCase e = toLowerCase (CHR ''.'' # ext')"
      by auto
    from e have "toLowerCase (CHR ''.'' # ext') \<in> CodeFileIdentifier E"
      unfolding CodeFileIdentifier_def by (metis image_eqI set_map)
    with ne nd' show "isCodeFile (CodeFileIdentifier E) n"
      unfolding n' using isCodeFile_split [OF nd', of "CodeFileIdentifier E" stem'] by blast
  qed
qed

section \<open>Properties of the registry\<close>

lemma Map_get_set: "Map_get k (Map_set k v m) = Some v"
  by (induction m) (auto simp: Map_get_def)

lemma Map_get_delete: "Map_get k (snd (Map_delete k m)) = None"
  by (induction m) (auto simp: Map_get_def Map_delete_def)

lemma Map_has_delete: "\<not> Map_has k (snd (Map_delete k m))"
  by (auto simp: Map_has_def Map_delete_def list_ex_iff)

lemma Map_has_iff: "Map_has k m \<longleftrightarrow> k \<in> fst ` set m"
  by (auto simp: Map_has_def list_ex_iff)

lemma Map_has_get: "Map_has k m \<longleftrightarrow> Map_get k m \<noteq> None"
  by (simp add: Map_has_iff Map_get_def map_of_eq_None_iff)

lemma length_Map_set: "Map_has k m \<Longrightarrow> length (Map_set k v m) = length m"
  by (induction m) (auto simp: Map_has_def)

lemma length_Map_set_new: "\<not> Map_has k m \<Longrightarrow> Map_set k v m = m @ [(k, v)]"
  by (induction m) (auto simp: Map_has_def)

lemma keys_Map_set: "Map_has k m \<Longrightarrow> map fst (Map_set k v m) = map fst m"
  by (induction m) (auto simp: Map_has_def)

lemma nth_Map_set:
  "distinct (map fst m) \<Longrightarrow> i < length m \<Longrightarrow>
     Map_set k v m ! i = (if fst (m ! i) = k then (k, v) else m ! i)"
proof (induction m arbitrary: i)
  case Nil then show ?case by simp
next
  case (Cons a m)
  show ?case
  proof (cases i)
    case 0 then show ?thesis by (cases a) auto
  next
    case (Suc j)
    with Cons show ?thesis
      by (cases a) (auto simp: nth_Cons')
  qed
qed

lemma Map_new_snoc: "Map_new (es @ [(k, v)]) = Map_set k v (Map_new es)"
  by (simp add: Map_new_def)

lemma keyedById_Nil: "keyedById []" by (simp add: keyedById_def)

lemma keys_set_Map_set: "set (map fst (Map_set k v m)) = insert k (set (map fst m))"
proof (cases "Map_has k m")
  case True
  then show ?thesis by (auto simp: keys_Map_set Map_has_iff)
next
  case False
  then show ?thesis by (simp add: length_Map_set_new)
qed

lemma distinct_Map_set: "distinct (map fst m) \<Longrightarrow> distinct (map fst (Map_set k v m))"
proof (induction m)
  case Nil then show ?case by simp
next
  case (Cons a m)
  have "fst a \<notin> set (map fst (Map_set k v m))" if "fst a \<noteq> k"
    using Cons.prems that by (simp only: keys_set_Map_set) simp
  with Cons show ?case by (cases a) auto
qed

lemma keyedById_register: "keyedById r \<Longrightarrow> keyedById (register J r)"
proof -
  have "list_all (\<lambda>entry. fst entry = id_Journal (snd entry)) m \<Longrightarrow>
        list_all (\<lambda>entry. fst entry = id_Journal (snd entry)) (Map_set (id_Journal J) J m)" for m
    by (induction m) auto
  then show "keyedById r \<Longrightarrow> keyedById (register J r)"
    by (simp add: keyedById_def register_def distinct_Map_set)
qed

lemma keyedById_remove: "keyedById r \<Longrightarrow> keyedById (snd (remove k r))"
  by (auto simp: keyedById_def remove_def Map_delete_def list_all_iff distinct_map_filter)

lemma JournalRegistry_snoc: "JournalRegistry (init @ [J]) = register J (JournalRegistry init)"
  by (simp add: JournalRegistry_def register_def Map_new_snoc)

lemma JournalRegistry_Nil: "JournalRegistry [] = []"
  by (simp add: JournalRegistry_def Map_new_def)

lemma keyedById_JournalRegistry: "keyedById (JournalRegistry init)"
  by (induction init rule: rev_induct)
     (simp_all add: JournalRegistry_Nil keyedById_Nil JournalRegistry_snoc keyedById_register)

lemma ids_list_Registry: "keyedById r \<Longrightarrow> map id_Journal (list_Registry r) = map fst r"
  by (induction r) (auto simp: keyedById_def list_Registry_def)

section \<open>Properties of \<open>Array_map\<close>, \<open>Promise_all\<close> and the orchestrators\<close>

lemma Array_map_calls:
  "Array_map (\<lambda>x log. (g x (fn log (key x)), log @ [key x])) xs calls =
     (map (\<lambda>i. g (xs ! i) (fn (calls @ map key (take i xs)) (key (xs ! i)))) [0..<length xs],
      calls @ map key xs)"
proof (induction xs arbitrary: calls)
  case Nil
  show ?case by simp
next
  case (Cons x xs)
  show ?case
    by (simp add: Cons.IH map_upt_Suc del: upt_Suc)
qed

lemma firstRejected_None:
  "firstRejected ps = None \<longleftrightarrow> (\<forall>p \<in> set ps. \<exists>v. outcome p = Inr v)"
  by (induction ps) (auto split: sum.splits option.splits)

lemma firstRejected_Some:
  "firstRejected ps = Some (t, e) \<Longrightarrow>
     (\<exists>p \<in> set ps. outcome p = Inl e \<and> settledAt p = t) \<and>
     (\<forall>q \<in> set ps. \<forall>e'. outcome q = Inl e' \<longrightarrow> t \<le> settledAt q)"
proof (induction ps arbitrary: t e)
  case Nil
  then show ?case by simp
next
  case (Cons p ps)
  show ?case
  proof (cases "outcome p")
    case (Inr v)
    with Cons show ?thesis by auto
  next
    case (Inl e0)
    show ?thesis
    proof (cases "firstRejected ps")
      case None
      with Inl Cons.prems have "t = settledAt p" "e = e0" by auto
      with Inl None show ?thesis by (auto simp: firstRejected_None)
    next
      case (Some r)
      obtain t' e' where r: "r = (t', e')" by (cases r)
      from Cons.IH [of t' e'] Some r
      have ih: "(\<exists>p \<in> set ps. outcome p = Inl e' \<and> settledAt p = t')"
        "(\<forall>q \<in> set ps. \<forall>e''. outcome q = Inl e'' \<longrightarrow> t' \<le> settledAt q)" by auto
      show ?thesis
      proof (cases "settledAt p \<le> t'")
        case True
        with Inl Some r Cons.prems have "t = settledAt p" "e = e0" by auto
        with Inl True ih show ?thesis by fastforce
      next
        case False
        with Inl Some r Cons.prems have "t = t'" "e = e'" by auto
        with Inl False ih show ?thesis by fastforce
      qed
    qed
  qed
qed

lemma fulfilledValues_all:
  "map outcome ps = map Inr vs \<Longrightarrow> fulfilledValues ps = vs"
  by (induction ps arbitrary: vs) auto

lemma Promise_all_Inr:
  "Promise_all ps = Inr vs \<longleftrightarrow> map outcome ps = map Inr vs"
proof
  assume "Promise_all ps = Inr vs"
  then have none: "firstRejected ps = None" and vs: "vs = fulfilledValues ps"
    by (auto simp: Promise_all_def split: option.splits)
  from none have "\<forall>p \<in> set ps. \<exists>v. outcome p = Inr v" by (simp add: firstRejected_None)
  then have "map outcome ps = map Inr (fulfilledValues ps)"
    by (induction ps) auto
  with vs show "map outcome ps = map Inr vs" by simp
next
  assume eq: "map outcome ps = map Inr vs"
  then have "\<forall>p \<in> set ps. \<exists>v. outcome p = Inr v"
    by (induction ps arbitrary: vs) auto
  then have "firstRejected ps = None" by (simp add: firstRejected_None)
  with fulfilledValues_all [OF eq] show "Promise_all ps = Inr vs"
    by (simp add: Promise_all_def)
qed

lemma Promise_all_Inl:
  assumes "p \<in> set ps" and "outcome p = Inl e0"
  shows "\<exists>q \<in> set ps. \<exists>e. outcome q = Inl e \<and> Promise_all ps = Inl e \<and>
           (\<forall>q' \<in> set ps. \<forall>e'. outcome q' = Inl e' \<longrightarrow> settledAt q \<le> settledAt q')"
proof -
  from assms have "firstRejected ps \<noteq> None"
    unfolding firstRejected_None by force
  then obtain t e where some: "firstRejected ps = Some (t, e)" by auto
  from firstRejected_Some [OF some] some show ?thesis
    by (auto simp: Promise_all_def)
qed

lemma valid_cap:
  "0 < N \<Longrightarrow> Number_isInteger (Finite (of_nat N)) \<and> \<not> lessThan_number (Finite (of_nat N)) (Finite 1)
     \<and> slice_to xs (Finite (of_nat N)) = take N xs"
  by (auto simp: Let_def min_def)


lemma Promise_all_upt_Inr:
  "Promise_all (map P [0..<n]) = Inr vs \<longleftrightarrow>
     length vs = n \<and> (\<forall>i<n. outcome (P i) = Inr (vs ! i))"
  unfolding Promise_all_Inr by (auto simp: list_eq_iff_nth_eq)

lemma Promise_all_upt_Inl:
  assumes "i < n" and "outcome (P i) = Inl e"
  shows "\<exists>j e'. j < n \<and> outcome (P j) = Inl e' \<and>
           (\<forall>k<n. \<forall>e''. outcome (P k) = Inl e'' \<longrightarrow> settledAt (P j) \<le> settledAt (P k)) \<and>
           Promise_all (map P [0..<n]) = Inl e'"
proof -
  from assms have "P i \<in> set (map P [0..<n])" by simp
  from Promise_all_Inl [OF this assms(2)]
  obtain q e' where q: "q \<in> set (map P [0..<n])" "outcome q = Inl e'"
    "Promise_all (map P [0..<n]) = Inl e'"
    "\<forall>q' \<in> set (map P [0..<n]). \<forall>e''. outcome q' = Inl e'' \<longrightarrow> settledAt q \<le> settledAt q'"
    by blast
  from q(1) obtain j where j: "j < n" "q = P j" by auto
  from q(4) have "\<forall>k<n. \<forall>e''. outcome (P k) = Inl e'' \<longrightarrow> settledAt (P j) \<le> settledAt (P k)"
    unfolding j(2) by simp
  with j q(2,3) show ?thesis by blast
qed

lemma thenReturn_simps:
  "settledAt (thenReturn f p) = settledAt p"
  "outcome (thenReturn f p) = Inl e \<longleftrightarrow> outcome p = Inl e"
  "outcome (thenReturn f p) = Inr w \<longleftrightarrow> (\<exists>v. outcome p = Inr v \<and> w = f v)"
  by (auto simp: thenReturn_def split: sum.splits)

lemma identifyCandidates_run:
  assumes "hasAny R"
  shows "identifyCandidates \<lparr>registry = R, scanner = S, fetchArticles = fn, page = pg\<rparr> calls
    = (Promise_all
         (map (\<lambda>i. thenReturn
                      (\<lambda>fetched. \<lparr>journalId = id_Journal (list_Registry R ! i),
                                  candidates_Result = filterCandidates S fetched\<rparr>)
                      (fn (calls @ map (\<lambda>j. (id_Journal j, case pg of None \<Rightarrow> Finite 1 | Some n \<Rightarrow> n))
                                    (take i (list_Registry R)))
                          (id_Journal (list_Registry R ! i), case pg of None \<Rightarrow> Finite 1 | Some n \<Rightarrow> n)))
              [0..<length (list_Registry R)]),
       calls @ map (\<lambda>j. (id_Journal j, case pg of None \<Rightarrow> Finite 1 | Some n \<Rightarrow> n)) (list_Registry R))"
  using assms
  by (simp add: identifyCandidates_def Let_def invoke_def
        Array_map_calls [where g = "\<lambda>journal. thenReturn (\<lambda>fetched. \<lparr>journalId = id_Journal journal,
                                  candidates_Result = filterCandidates S fetched\<rparr>)"
                          and key = "\<lambda>j. (id_Journal j, case pg of None \<Rightarrow> Finite 1 | Some n \<Rightarrow> n)"])

lemma hasAny_iff: "hasAny R \<longleftrightarrow> list_Registry R \<noteq> []"
  by (simp add: hasAny_def list_Registry_def)

lemma identifyCandidates_Inr:
  assumes "hasAny R" and "p = (case pg of None \<Rightarrow> Finite 1 | Some n \<Rightarrow> n)"
  shows "fst (identifyCandidates \<lparr>registry = R, scanner = S, fetchArticles = fn, page = pg\<rparr> calls) = Inr rs
    \<longleftrightarrow> length rs = length (list_Registry R) \<and>
        (\<forall>i < length (list_Registry R). \<exists>articles.
           outcome (fn (calls @ map (\<lambda>j. (id_Journal j, p)) (take i (list_Registry R)))
                       (id_Journal (list_Registry R ! i), p)) = Inr articles \<and>
           rs ! i = \<lparr>journalId = id_Journal (list_Registry R ! i),
                     candidates_Result = filterCandidates S articles\<rparr>)"
  unfolding identifyCandidates_run [OF assms(1)] assms(2)
  by (simp add: Promise_all_upt_Inr thenReturn_simps)

lemma identifyCandidates_failure:
  assumes "list_Registry R \<noteq> []" and "p = (case pg of None \<Rightarrow> Finite 1 | Some n \<Rightarrow> n)"
    and "i < length (list_Registry R)"
    and "outcome (fn (calls @ map (\<lambda>j. (id_Journal j, p)) (take i (list_Registry R)))
                     (id_Journal (list_Registry R ! i), p)) = Inl e"
  shows "(\<exists>j e'. j < length (list_Registry R) \<and>
            outcome (fn (calls @ map (\<lambda>j. (id_Journal j, p)) (take j (list_Registry R)))
                        (id_Journal (list_Registry R ! j), p)) = Inl e' \<and>
            (\<forall>k < length (list_Registry R). \<forall>e''.
               outcome (fn (calls @ map (\<lambda>j. (id_Journal j, p)) (take k (list_Registry R)))
                           (id_Journal (list_Registry R ! k), p)) = Inl e'' \<longrightarrow>
               settledAt (fn (calls @ map (\<lambda>j. (id_Journal j, p)) (take j (list_Registry R)))
                             (id_Journal (list_Registry R ! j), p))
                 \<le> settledAt (fn (calls @ map (\<lambda>j. (id_Journal j, p)) (take k (list_Registry R)))
                                 (id_Journal (list_Registry R ! k), p))) \<and>
            identifyCandidates \<lparr>registry = R, scanner = S, fetchArticles = fn, page = pg\<rparr> calls
              = (Inl e', calls @ map (\<lambda>j. (id_Journal j, p)) (list_Registry R)))
         \<and> ((\<forall>k < length (list_Registry R). k \<noteq> i \<longrightarrow>
                (\<exists>as. outcome (fn (calls @ map (\<lambda>j. (id_Journal j, p)) (take k (list_Registry R)))
                                  (id_Journal (list_Registry R ! k), p)) = Inr as)) \<longrightarrow>
              fst (identifyCandidates \<lparr>registry = R, scanner = S, fetchArticles = fn, page = pg\<rparr> calls)
                = Inl e)"
proof -
  let ?js = "list_Registry R"
  let ?F = "\<lambda>k. fn (calls @ map (\<lambda>j. (id_Journal j, p)) (take k ?js)) (id_Journal (?js ! k), p)"
  let ?W = "\<lambda>k. thenReturn
               (\<lambda>fetched. \<lparr>journalId = id_Journal (?js ! k),
                            candidates_Result = filterCandidates S fetched\<rparr>) (?F k)"
  from assms(1) have any: "hasAny R" by (simp add: hasAny_iff)
  have runW: "identifyCandidates \<lparr>registry = R, scanner = S, fetchArticles = fn, page = pg\<rparr> calls
      = (Promise_all (map ?W [0..<length ?js]), calls @ map (\<lambda>j. (id_Journal j, p)) ?js)"
    unfolding identifyCandidates_run [OF any] assms(2) ..
  from assms(4) have "outcome (?W i) = Inl e" by (simp add: thenReturn_simps)
  from Promise_all_upt_Inl [of i "length ?js" ?W e, OF assms(3) this]
  obtain j e' where j: "j < length ?js" "outcome (?W j) = Inl e'"
    "\<forall>k < length ?js. \<forall>e''. outcome (?W k) = Inl e'' \<longrightarrow> settledAt (?W j) \<le> settledAt (?W k)"
    "Promise_all (map ?W [0..<length ?js]) = Inl e'"
    by blast
  from j(2) have jF: "outcome (?F j) = Inl e'" by (simp add: thenReturn_simps)
  from j(3) have first: "\<forall>k < length ?js. \<forall>e''. outcome (?F k) = Inl e'' \<longrightarrow>
      settledAt (?F j) \<le> settledAt (?F k)"
    by (simp add: thenReturn_simps)
  have run: "identifyCandidates \<lparr>registry = R, scanner = S, fetchArticles = fn, page = pg\<rparr> calls
      = (Inl e', calls @ map (\<lambda>j. (id_Journal j, p)) ?js)"
    unfolding runW j(4) ..
  have only: "fst (identifyCandidates \<lparr>registry = R, scanner = S, fetchArticles = fn, page = pg\<rparr> calls)
      = Inl e"
    if others: "\<forall>k < length ?js. k \<noteq> i \<longrightarrow> (\<exists>as. outcome (?F k) = Inr as)"
  proof -
    have "j = i"
    proof (rule ccontr)
      assume "j \<noteq> i"
      with others j(1) obtain as where "outcome (?F j) = Inr as" by blast
      with jF show False by simp
    qed
    with jF assms(4) have "e' = e" by simp
    with run show ?thesis by simp
  qed
  from j(1) jF first run only show ?thesis by blast
qed

text \<open>
  Every registry that satisfies \<open>keyedById\<close> is one the constructor builds, and a
  call of \<open>downloadBundles\<close> without a cap is the call with the cap 10.
\<close>

lemma keyedById_constructed: "keyedById r \<Longrightarrow> JournalRegistry (list_Registry r) = r"
proof (induction r rule: rev_induct)
  case Nil
  show ?case by (simp add: list_Registry_def JournalRegistry_Nil)
next
  case (snoc entry r)
  from snoc.prems have keyed: "keyedById r" and key: "fst entry = id_Journal (snd entry)"
    and fresh: "fst entry \<notin> fst ` set r"
    by (force simp: keyedById_def)+
  have "JournalRegistry (list_Registry (r @ [entry])) = register (snd entry) (JournalRegistry (list_Registry r))"
    by (simp add: list_Registry_def JournalRegistry_snoc)
  also have "\<dots> = Map_set (fst entry) (snd entry) r"
    by (simp add: snoc.IH [OF keyed] register_def key)
  also have "\<dots> = r @ [entry]"
    using fresh by (simp add: length_Map_set_new Map_has_iff)
  finally show ?case .
qed

lemma downloadBundles_default:
  "downloadBundles \<lparr>candidates = C, downloadBundle = fn, maxBundles = None\<rparr> calls
     = downloadBundles \<lparr>candidates = C, downloadBundle = fn, maxBundles = Some (Finite 10)\<rparr> calls"
  by (simp add: downloadBundles_def DEFAULT_MAX_BUNDLES_def)

text \<open>
  \<open>downloadBundles\<close> when every call of the batch returns a promise, and when some
  call throws: the first call that throws ends the run.
\<close>

lemma Array_map_throwing_returns:
  "(\<And>i. i < length xs \<Longrightarrow> fn (calls @ take i xs) (xs ! i) = Inr (P i)) \<Longrightarrow>
   Array_map_throwing (\<lambda>x log. invokeThrowing fn x log) xs calls
     = (Inr (map P [0..<length xs]), calls @ xs)"
proof (induction xs arbitrary: calls P)
  case Nil
  show ?case by simp
next
  case (Cons x xs)
  from Cons.prems [of 0] have head: "fn calls x = Inr (P 0)" by simp
  have tail: "fn ((calls @ [x]) @ take i xs) (xs ! i) = Inr (P (Suc i))" if "i < length xs" for i
    using Cons.prems [of "Suc i"] that by simp
  have "Array_map_throwing (\<lambda>x log. invokeThrowing fn x log) xs (calls @ [x])
      = (Inr (map (\<lambda>i. P (Suc i)) [0..<length xs]), (calls @ [x]) @ xs)"
    by (rule Cons.IH) (rule tail)
  with head show ?case
    by (simp add: invokeThrowing_def map_upt_Suc del: upt_Suc)
qed

lemma Array_map_throwing_throws:
  "j < length xs \<Longrightarrow>
   (\<And>k. k < j \<Longrightarrow> \<exists>p. fn (calls @ take k xs) (xs ! k) = Inr p) \<Longrightarrow>
   fn (calls @ take j xs) (xs ! j) = Inl e \<Longrightarrow>
   Array_map_throwing (\<lambda>x log. invokeThrowing fn x log) xs calls
     = (Inl e, calls @ take (Suc j) xs)"
proof (induction xs arbitrary: calls j)
  case Nil
  then show ?case by simp
next
  case (Cons x xs)
  show ?case
  proof (cases j)
    case 0
    with Cons.prems(3) show ?thesis by (simp add: invokeThrowing_def)
  next
    case (Suc j')
    from Cons.prems(2) [of 0] Suc obtain p where head: "fn calls x = Inr p" by auto
    have earlier: "\<exists>p. fn ((calls @ [x]) @ take k xs) (xs ! k) = Inr p" if "k < j'" for k
      using Cons.prems(2) [of "Suc k"] that Suc by simp
    from Cons.prems(1,3) Suc have len: "j' < length xs"
      and throws: "fn ((calls @ [x]) @ take j' xs) (xs ! j') = Inl e" by simp_all
    have "Array_map_throwing (\<lambda>x log. invokeThrowing fn x log) xs (calls @ [x])
        = (Inl e, (calls @ [x]) @ take (Suc j') xs)"
      by (rule Cons.IH [OF len earlier throws])
    with head Suc show ?thesis by (simp add: invokeThrowing_def)
  qed
qed

lemma first_throw:
  fixes D :: "nat \<Rightarrow> 'e + 'p"
  shows "(\<forall>i<n. \<exists>p. D i = Inr p) \<or>
         (\<exists>j e. j < n \<and> D j = Inl e \<and> (\<forall>k<j. \<exists>p. D k = Inr p))"
proof (cases "\<forall>i<n. \<exists>p. D i = Inr p")
  case True
  then show ?thesis by simp
next
  case False
  then obtain i where i: "i < n" "\<not> (\<exists>p. D i = Inr p)" by blast
  define j where "j = (LEAST i. \<not> (\<exists>p. D i = Inr p))"
  have jbad: "\<not> (\<exists>p. D j = Inr p)"
    unfolding j_def by (rule LeastI [of "\<lambda>i. \<not> (\<exists>p. D i = Inr p)", OF i(2)])
  have "j \<le> i" unfolding j_def by (rule Least_le) (rule i(2))
  with i(1) have jn: "j < n" by simp
  have before: "\<forall>k<j. \<exists>p. D k = Inr p"
    using not_less_Least [of _ "\<lambda>i. \<not> (\<exists>p. D i = Inr p)"] unfolding j_def by blast
  from jbad obtain e where "D j = Inl e" by (cases "D j") auto
  with jn before show ?thesis by blast
qed

lemma take_min_length: "take (min N (length C)) C = take N C"
  by (simp add: min_def)

lemma downloadBundles_returns:
  assumes "0 < N"
    and "\<And>i. i < min N (length C) \<Longrightarrow> fn (calls @ take i C) (C ! i) = Inr (P i)"
  shows "downloadBundles \<lparr>candidates = C, downloadBundle = fn, maxBundles = Some (Finite (of_nat N))\<rparr> calls
    = (Promise_all (map P [0..<min N (length C)]), calls @ take N C)"
proof -
  have "fn (calls @ take i (take N C)) (take N C ! i) = Inr (P i)" if "i < length (take N C)" for i
    using assms(2) [of i] that by (simp add: min_def split: if_splits)
  then have "Array_map_throwing (\<lambda>article log. invokeThrowing fn article log) (take N C) calls
      = (Inr (map P [0..<length (take N C)]), calls @ take N C)"
    by (rule Array_map_throwing_returns [where fn = fn and calls = calls and xs = "take N C" and P = P])
  then show ?thesis
    using valid_cap [OF assms(1), of C]
    by (simp add: downloadBundles_def Let_def min.commute)
qed

lemma downloadBundles_throws:
  assumes "0 < N" and "j < min N (length C)"
    and "\<And>k. k < j \<Longrightarrow> \<exists>p. fn (calls @ take k C) (C ! k) = Inr p"
    and "fn (calls @ take j C) (C ! j) = Inl e"
  shows "downloadBundles \<lparr>candidates = C, downloadBundle = fn, maxBundles = Some (Finite (of_nat N))\<rparr> calls
    = (Inl e, calls @ take (Suc j) C)"
proof -
  from assms(2) have len: "j < length (take N C)" by simp
  have earlier: "\<exists>p. fn (calls @ take k (take N C)) (take N C ! k) = Inr p" if "k < j" for k
    using assms(3) [OF that] that assms(2) by (simp add: min_def split: if_splits)
  from assms(2,4) have throws: "fn (calls @ take j (take N C)) (take N C ! j) = Inl e"
    by (simp add: min_def split: if_splits)
  have "Array_map_throwing (\<lambda>article log. invokeThrowing fn article log) (take N C) calls
      = (Inl e, calls @ take (Suc j) (take N C))"
    by (rule Array_map_throwing_throws [where fn = fn and calls = calls and xs = "take N C" and j = j and e = e, OF len earlier throws])
  moreover from assms(2) have "take (Suc j) (take N C) = take (Suc j) C"
    by (simp add: min_def split: if_splits)
  ultimately show ?thesis
    using valid_cap [OF assms(1), of C]
    by (simp add: downloadBundles_def Let_def)
qed


lemma downloadBundles_failure:
  assumes "0 < N" and "i < min N (length C)"
    and "fn (calls @ take i C) (C ! i) = Inl e \<or>
         (\<exists>p. fn (calls @ take i C) (C ! i) = Inr p \<and> outcome p = Inl e)"
  shows "((\<exists>j e'. j < min N (length C) \<and>
             (\<forall>k<j. \<exists>p. fn (calls @ take k C) (C ! k) = Inr p) \<and>
             fn (calls @ take j C) (C ! j) = Inl e' \<and>
             downloadBundles
               \<lparr>candidates = C, downloadBundle = fn, maxBundles = Some (Finite (of_nat N))\<rparr> calls
               = (Inl e', calls @ take (Suc j) C))
          \<or> ((\<forall>k < min N (length C). \<exists>p. fn (calls @ take k C) (C ! k) = Inr p) \<and>
              (\<exists>j e' p. j < min N (length C) \<and>
                 fn (calls @ take j C) (C ! j) = Inr p \<and> outcome p = Inl e' \<and>
                 (\<forall>k < min N (length C). \<forall>q e''.
                    fn (calls @ take k C) (C ! k) = Inr q \<and> outcome q = Inl e'' \<longrightarrow>
                    settledAt p \<le> settledAt q) \<and>
                 downloadBundles
                   \<lparr>candidates = C, downloadBundle = fn, maxBundles = Some (Finite (of_nat N))\<rparr> calls
                   = (Inl e', calls @ take (min N (length C)) C))))
         \<and> ((\<forall>k < min N (length C). k \<noteq> i \<longrightarrow>
                (\<exists>p b. fn (calls @ take k C) (C ! k) = Inr p \<and> outcome p = Inr b)) \<longrightarrow>
              fst (downloadBundles
                     \<lparr>candidates = C, downloadBundle = fn, maxBundles = Some (Finite (of_nat N))\<rparr> calls)
                = Inl e)"
proof -
  let ?n = "min N (length C)"
  let ?D = "\<lambda>k. fn (calls @ take k C) (C ! k)"
  let ?run = "downloadBundles
      \<lparr>candidates = C, downloadBundle = fn, maxBundles = Some (Finite (of_nat N))\<rparr> calls"
  let ?only = "\<forall>k < ?n. k \<noteq> i \<longrightarrow> (\<exists>p b. ?D k = Inr p \<and> outcome p = Inr b)"
  from first_throw [of ?n ?D] show ?thesis
  proof
    assume "\<exists>j e. j < ?n \<and> ?D j = Inl e \<and> (\<forall>k<j. \<exists>p. ?D k = Inr p)"
    then obtain j e' where j: "j < ?n" "?D j = Inl e'" "\<And>k. k < j \<Longrightarrow> \<exists>p. ?D k = Inr p"
      by blast
    have run: "?run = (Inl e', calls @ take (Suc j) C)"
      by (rule downloadBundles_throws [where fn = fn, OF assms(1) j(1) _ j(2)]) (rule j(3))
    have "fst ?run = Inl e" if only: ?only
    proof -
      have "j = i"
      proof (rule ccontr)
        assume "j \<noteq> i"
        with only j(1) obtain p where "?D j = Inr p" by blast
        with j(2) show False by simp
      qed
      with j(2) assms(3) have "e' = e" by auto
      with run show ?thesis by simp
    qed
    with j run show ?thesis by blast
  next
    assume all: "\<forall>k<?n. \<exists>p. ?D k = Inr p"
    define P where "P k = projr (?D k)" for k
    have P: "?D k = Inr (P k)" if "k < ?n" for k
      using all that unfolding P_def by force
    have runP: "?run = (Promise_all (map P [0..<?n]), calls @ take N C)"
      by (rule downloadBundles_returns [where fn = fn and P = P, OF assms(1)]) (rule P)
    from assms(2,3) P [OF assms(2)] have rej: "outcome (P i) = Inl e" by auto
    from Promise_all_upt_Inl [of i ?n P e, OF assms(2) rej]
    obtain j e' where j: "j < ?n" "outcome (P j) = Inl e'"
      "\<forall>k < ?n. \<forall>e''. outcome (P k) = Inl e'' \<longrightarrow> settledAt (P j) \<le> settledAt (P k)"
      "Promise_all (map P [0..<?n]) = Inl e'"
      by blast
    have run: "?run = (Inl e', calls @ take ?n C)"
      unfolding runP j(4) by (simp add: take_min_length)
    have first: "\<forall>k < ?n. \<forall>q e''. ?D k = Inr q \<and> outcome q = Inl e'' \<longrightarrow>
        settledAt (P j) \<le> settledAt q"
      using j(3) P by auto
    have "fst ?run = Inl e" if only: ?only
    proof -
      have "j = i"
      proof (rule ccontr)
        assume "j \<noteq> i"
        with only j(1) obtain p b where "?D j = Inr p" "outcome p = Inr b" by blast
        with P [OF j(1)] j(2) show False by simp
      qed
      with j(2) rej have "e' = e" by simp
      with run show ?thesis by simp
    qed
    with all j(1,2) P [OF j(1)] first run show ?thesis by blast
  qed
qed


section \<open>Scenarios\<close>

text \<open>
  The model run on scenarios of the test suite: a keyword matches inside a longer word,
  and files are kept by their extension, whatever its case.
\<close>

lemma scenario_substring_match:
  "isCandidate (KeywordScanner [''code'', ''github'', ''software''])
     \<lparr>id_Article = ''art-1'', title = ''A Study of Things'', abstract_Article = '''',
      fullText = ''The codebase was refactored.'', supplementaryUrl = ''''\<rparr>"
  by code_simp

lemma scenario_code_files:
  "map name_File
     (identifyCodeFiles (CodeFileIdentifier [''.py'', ''.r'', ''.ipynb''])
        \<lparr>articleId = ''a'', articleTitle = ''t'',
         files = map (\<lambda>n. \<lparr>name_File = n, localPath = ''/tmp/'' @ n, sizeBytes = Finite 1\<rparr>)
                   [''analysis.py'', ''data.csv'', ''notebook.ipynb'', ''figure.png'', ''model.r''],
         tempDir = ''/tmp''\<rparr>)
   = [''analysis.py'', ''notebook.ipynb'', ''model.r'']"
  by code_simp

lemma scenario_default_extensions:
  "isCodeFile (CodeFileIdentifier DEFAULT_CODE_EXTENSIONS) ''Analysis.PY''
   \<and> \<not> isCodeFile (CodeFileIdentifier DEFAULT_CODE_EXTENSIONS) ''.gitignore''
   \<and> \<not> isCodeFile (CodeFileIdentifier DEFAULT_CODE_EXTENSIONS) ''oddfile.''
   \<and> \<not> isCodeFile (CodeFileIdentifier DEFAULT_CODE_EXTENSIONS) ''README''"
  by code_simp

section \<open>KeywordScanner: claims\<close>

text \<open>
  C1. For every keyword list K and every article A, \<open>isCandidate\<close> is true exactly when
  the lower-cased, space-joined concatenation of title, abstract and fullText (in that
  order) contains the lower-casing of at least one element of K as a contiguous
  substring; with the empty keyword list it is false for every article.
\<close>

theorem C1_isCandidate_iff:
  "(isCandidate K A \<longleftrightarrow>
      (\<exists>k \<in> set K. \<exists>before after.
         toLowerCase (title A @ '' '' @ abstract_Article A @ '' '' @ fullText A)
           = before @ toLowerCase k @ after))
   \<and> \<not> isCandidate [] A"
  by (auto simp: isCandidate_def haystack_def includes_sublist sublist_def list_ex_iff)

theorem C1_isCandidate_iff_witness:
  "isCandidate [''github'', ''CODE'']
     \<lparr>id_Article = ''art-1'', title = ''The Codebase'', abstract_Article = '''',
      fullText = ''Refactored.'', supplementaryUrl = ''''\<rparr>
   \<and> (\<exists>k \<in> set [''github'', ''CODE'']. \<exists>before after.
         toLowerCase (''The Codebase'' @ '' '' @ '''' @ '' '' @ ''Refactored.'')
           = before @ toLowerCase k @ after)"
proof -
  let ?A = "\<lparr>id_Article = ''art-1'', title = ''The Codebase'', abstract_Article = '''',
      fullText = ''Refactored.'', supplementaryUrl = ''''\<rparr>"
  have run: "isCandidate [''github'', ''CODE''] ?A"
    by code_simp
  from C1_isCandidate_iff [of "[''github'', ''CODE'']" ?A] run show ?thesis
    by simp
qed

text \<open>
  C10. If the keyword list contains the empty string (so it is not the empty list),
  \<open>isCandidate\<close> is true for every article, also for the article whose title, abstract
  and fullText are all empty.
\<close>

theorem C10_empty_keyword_matches_all:
  "'''' \<in> set K \<Longrightarrow> isCandidate K A"
proof -
  assume mem: "'''' \<in> set K"
  then have "K \<noteq> []" by auto
  moreover have "includes_str (haystack A) (toLowerCase '''')"
    by (simp add: toLowerCase_Nil includes_Nil)
  ultimately show ?thesis
    using mem by (auto simp: isCandidate_def list_ex_iff)
qed

theorem C10_empty_keyword_matches_all_witness:
  "'''' \<in> set [''code'', ''''] \<and>
   isCandidate [''code'', '''']
     \<lparr>id_Article = ''art-1'', title = '''', abstract_Article = '''',
      fullText = '''', supplementaryUrl = ''''\<rparr>"
proof -
  have mem: "'''' \<in> set [''code'', '''']" by simp
  from C10_empty_keyword_matches_all [OF mem] mem show ?thesis by simp
qed

section \<open>CodeFileIdentifier: claims\<close>

text \<open>
  C4. For every bundle B and every list E of configured extensions,
  \<open>identifyCodeFiles\<close> returns the files of B, in their order, whose name splits at its
  last dot into a non-empty stem and a non-empty rest and whose extension (the dot and
  the rest) has the same lower-casing as some element of E; the extensions are
  lower-cased when they are configured, by the constructor and by \<open>setExtensions\<close>
  alike. A name with no dot, with its last dot at position 0, or ending in a dot is
  never in the result.
\<close>

theorem C4_identifyCodeFiles:
  "identifyCodeFiles (CodeFileIdentifier E) B =
     filter
       (\<lambda>f. \<exists>stem ext.
              name_File f = stem @ ''.'' @ ext \<and> CHR ''.'' \<notin> set ext \<and>
              stem \<noteq> [] \<and> ext \<noteq> [] \<and>
              (\<exists>e \<in> set E. toLowerCase e = toLowerCase (''.'' @ ext)))
       (files B)
   \<and> setExtensions E identifier = CodeFileIdentifier E
   \<and> (\<forall>f \<in> set (identifyCodeFiles (CodeFileIdentifier E) B).
         CHR ''.'' \<in> set (name_File f) \<and>
         \<not> (\<exists>ext. name_File f = ''.'' @ ext \<and> CHR ''.'' \<notin> set ext) \<and>
         \<not> (\<exists>stem. name_File f = stem @ ''.''))"
proof (intro conjI ballI)
  show "identifyCodeFiles (CodeFileIdentifier E) B =
     filter
       (\<lambda>f. \<exists>stem ext.
              name_File f = stem @ ''.'' @ ext \<and> CHR ''.'' \<notin> set ext \<and>
              stem \<noteq> [] \<and> ext \<noteq> [] \<and>
              (\<exists>e \<in> set E. toLowerCase e = toLowerCase (''.'' @ ext)))
       (files B)"
    unfolding identifyCodeFiles_def by (rule filter_cong [OF refl]) (rule isCodeFile_iff)
  show "setExtensions E identifier = CodeFileIdentifier E"
    by (simp add: setExtensions_def CodeFileIdentifier_def)
next
  fix f assume "f \<in> set (identifyCodeFiles (CodeFileIdentifier E) B)"
  then have code: "isCodeFile (CodeFileIdentifier E) (name_File f)"
    by (simp add: identifyCodeFiles_def)
  then show "CHR ''.'' \<in> set (name_File f)"
    using isCodeFile_no_dot by blast
  show "\<not> (\<exists>ext. name_File f = ''.'' @ ext \<and> CHR ''.'' \<notin> set ext)"
  proof
    assume "\<exists>ext. name_File f = ''.'' @ ext \<and> CHR ''.'' \<notin> set ext"
    then obtain ext where "name_File f = [] @ CHR ''.'' # ext" "CHR ''.'' \<notin> set ext" by auto
    with code isCodeFile_split [of ext "CodeFileIdentifier E" "[]"] show False by simp
  qed
  show "\<not> (\<exists>stem. name_File f = stem @ ''.'')"
  proof
    assume "\<exists>stem. name_File f = stem @ ''.''"
    then obtain stem where "name_File f = stem @ CHR ''.'' # []" by auto
    with code isCodeFile_split [of "[]" "CodeFileIdentifier E" stem] show False by simp
  qed
qed

theorem C4_identifyCodeFiles_witness:
  "identifyCodeFiles (CodeFileIdentifier [''.py'', ''.R''])
     \<lparr>articleId = ''a1'', articleTitle = ''t'',
      files = [\<lparr>name_File = ''a.PY'', localPath = ''/x'', sizeBytes = Finite 3\<rparr>,
               \<lparr>name_File = ''.r'', localPath = ''/x'', sizeBytes = Finite 3\<rparr>,
               \<lparr>name_File = ''model.r'', localPath = ''/x'', sizeBytes = Finite 3\<rparr>],
      tempDir = ''/tmp''\<rparr>
   = [\<lparr>name_File = ''a.PY'', localPath = ''/x'', sizeBytes = Finite 3\<rparr>,
      \<lparr>name_File = ''model.r'', localPath = ''/x'', sizeBytes = Finite 3\<rparr>]
   \<and> filter
       (\<lambda>f. \<exists>stem ext.
              name_File f = stem @ ''.'' @ ext \<and> CHR ''.'' \<notin> set ext \<and>
              stem \<noteq> [] \<and> ext \<noteq> [] \<and>
              (\<exists>e \<in> set [''.py'', ''.R'']. toLowerCase e = toLowerCase (''.'' @ ext)))
       [\<lparr>name_File = ''a.PY'', localPath = ''/x'', sizeBytes = Finite 3\<rparr>,
        \<lparr>name_File = ''.r'', localPath = ''/x'', sizeBytes = Finite 3\<rparr>,
        \<lparr>name_File = ''model.r'', localPath = ''/x'', sizeBytes = Finite 3\<rparr>]
     = [\<lparr>name_File = ''a.PY'', localPath = ''/x'', sizeBytes = Finite 3\<rparr>,
        \<lparr>name_File = ''model.r'', localPath = ''/x'', sizeBytes = Finite 3\<rparr>]
   \<and> \<not> (\<exists>stem. ''model.r'' = stem @ ''.'')"
proof -
  let ?py = "\<lparr>name_File = ''a.PY'', localPath = ''/x'', sizeBytes = Finite 3\<rparr>"
  let ?dot = "\<lparr>name_File = ''.r'', localPath = ''/x'', sizeBytes = Finite 3\<rparr>"
  let ?r = "\<lparr>name_File = ''model.r'', localPath = ''/x'', sizeBytes = Finite 3\<rparr>"
  let ?B = "\<lparr>articleId = ''a1'', articleTitle = ''t'', files = [?py, ?dot, ?r],
      tempDir = ''/tmp''\<rparr>"
  note inst = C4_identifyCodeFiles [of "[''.py'', ''.R'']" ?B "{}"]
  have run: "identifyCodeFiles (CodeFileIdentifier [''.py'', ''.R'']) ?B = [?py, ?r]"
    by code_simp
  from inst have spec: "identifyCodeFiles (CodeFileIdentifier [''.py'', ''.R'']) ?B =
     filter
       (\<lambda>f. \<exists>stem ext.
              name_File f = stem @ ''.'' @ ext \<and> CHR ''.'' \<notin> set ext \<and>
              stem \<noteq> [] \<and> ext \<noteq> [] \<and>
              (\<exists>e \<in> set [''.py'', ''.R'']. toLowerCase e = toLowerCase (''.'' @ ext)))
       (files ?B)"
    by (rule conjunct1)
  from inst have "\<forall>f \<in> set (identifyCodeFiles (CodeFileIdentifier [''.py'', ''.R'']) ?B).
         CHR ''.'' \<in> set (name_File f) \<and>
         \<not> (\<exists>ext. name_File f = ''.'' @ ext \<and> CHR ''.'' \<notin> set ext) \<and>
         \<not> (\<exists>stem. name_File f = stem @ ''.'')"
    by blast
  then have "\<not> (\<exists>stem. name_File ?r = stem @ ''.'')"
    unfolding run by simp
  then have never: "\<not> (\<exists>stem. ''model.r'' = stem @ ''.'')"
    by simp
  from spec have "filter
       (\<lambda>f. \<exists>stem ext.
              name_File f = stem @ ''.'' @ ext \<and> CHR ''.'' \<notin> set ext \<and>
              stem \<noteq> [] \<and> ext \<noteq> [] \<and>
              (\<exists>e \<in> set [''.py'', ''.R'']. toLowerCase e = toLowerCase (''.'' @ ext)))
       [?py, ?dot, ?r] = [?py, ?r]"
    unfolding run by (simp only: SupplementaryBundle.simps)
  with run never show ?thesis by blast
qed

section \<open>JournalRegistry: claims\<close>

text \<open>
  C7. For every registry state and every journal J: after \<open>register(J)\<close>,
  \<open>get(J.id)\<close> returns J; after \<open>remove(J.id)\<close>, \<open>get(J.id)\<close> is absent and a
  further \<open>remove(J.id)\<close> returns false.
\<close>

theorem C7_register_get_remove:
  "get (id_Journal J) (register J r) = Some J
   \<and> get (id_Journal J) (snd (remove (id_Journal J) r)) = None
   \<and> fst (remove (id_Journal J) (snd (remove (id_Journal J) r))) = False"
proof (intro conjI)
  show "get (id_Journal J) (register J r) = Some J"
    by (simp add: get_def register_def Map_get_set)
  show "get (id_Journal J) (snd (remove (id_Journal J) r)) = None"
    by (simp add: get_def remove_def Map_get_delete)
  have "fst (Map_delete k m) = Map_has k m" for k :: string and m :: JournalRegistry
    by (simp add: Map_delete_def)
  then show "fst (remove (id_Journal J) (snd (remove (id_Journal J) r))) = False"
    by (simp add: remove_def Map_has_delete)
qed

theorem C7_register_get_remove_witness:
  "get ''nature''
     (register \<lparr>id_Journal = ''nature'', displayName = ''Nature (updated)'', endpoints = []\<rparr>
        (JournalRegistry
           [\<lparr>id_Journal = ''nature'', displayName = ''Nature'', endpoints = []\<rparr>,
            \<lparr>id_Journal = ''science'', displayName = ''Science'', endpoints = []\<rparr>]))
     = Some \<lparr>id_Journal = ''nature'', displayName = ''Nature (updated)'', endpoints = []\<rparr>
   \<and> remove ''nature''
        (JournalRegistry
           [\<lparr>id_Journal = ''nature'', displayName = ''Nature'', endpoints = []\<rparr>,
            \<lparr>id_Journal = ''science'', displayName = ''Science'', endpoints = []\<rparr>])
     = (True, [(''science'', \<lparr>id_Journal = ''science'', displayName = ''Science'', endpoints = []\<rparr>)])
   \<and> get ''nature''
        [(''science'', \<lparr>id_Journal = ''science'', displayName = ''Science'', endpoints = []\<rparr>)]
     = None
   \<and> fst (remove ''nature''
        [(''science'', \<lparr>id_Journal = ''science'', displayName = ''Science'', endpoints = []\<rparr>)])
     = False"
proof -
  let ?nature = "\<lparr>id_Journal = ''nature'', displayName = ''Nature'', endpoints = []\<rparr>"
  let ?updated = "\<lparr>id_Journal = ''nature'', displayName = ''Nature (updated)'', endpoints = []\<rparr>"
  let ?science = "\<lparr>id_Journal = ''science'', displayName = ''Science'', endpoints = []\<rparr>"
  have run: "remove ''nature'' (JournalRegistry [?nature, ?science]) = (True, [(''science'', ?science)])"
    by code_simp
  from C7_register_get_remove [of ?updated "JournalRegistry [?nature, ?science]"] run
  show ?thesis by simp
qed

text \<open>
  C8. Registering a journal whose id is already in the registry keeps the length of
  \<open>list()\<close> and the order of the ids in it, and puts the new value at the position
  of that id. The constructor is the same operation repeated over the initial list,
  from the empty registry: the ids of the constructed registry are the ids of the
  initial list in the order of their first occurrences, so a duplicate id in the
  initial list overwrites in place too. The hypothesis \<open>keyedById\<close> holds of every
  registry the class can be in (lemmas \<open>keyedById_JournalRegistry\<close>,
  \<open>keyedById_register\<close>, \<open>keyedById_remove\<close>).
\<close>

theorem C8_register_replaces_in_place:
  "(keyedById r \<and> id_Journal J \<in> set (map id_Journal (list_Registry r)) \<longrightarrow>
      length (list_Registry (register J r)) = length (list_Registry r) \<and>
      map id_Journal (list_Registry (register J r)) = map id_Journal (list_Registry r) \<and>
      (\<forall>i < length (list_Registry r).
         list_Registry (register J r) ! i =
           (if id_Journal (list_Registry r ! i) = id_Journal J then J else list_Registry r ! i)))
   \<and> JournalRegistry [] = []
   \<and> JournalRegistry (initial @ [J']) = register J' (JournalRegistry initial)
   \<and> keyedById (JournalRegistry initial)
   \<and> map id_Journal (list_Registry (JournalRegistry initial))
        = rev (remdups (rev (map id_Journal initial)))"
proof (intro conjI impI)
  assume hyp: "keyedById r \<and> id_Journal J \<in> set (map id_Journal (list_Registry r))"
  then have keyed: "keyedById r" by simp
  from hyp have has: "Map_has (id_Journal J) r"
    using ids_list_Registry [OF keyed] by (simp add: Map_has_iff)
  show "length (list_Registry (register J r)) = length (list_Registry r)"
    using has by (simp add: list_Registry_def register_def length_Map_set)
  show "map id_Journal (list_Registry (register J r)) = map id_Journal (list_Registry r)"
    using has keyed
    by (simp add: ids_list_Registry keyedById_register) (simp add: register_def keys_Map_set)
  show "\<forall>i < length (list_Registry r).
         list_Registry (register J r) ! i =
           (if id_Journal (list_Registry r ! i) = id_Journal J then J else list_Registry r ! i)"
  proof (intro allI impI)
    fix i assume "i < length (list_Registry r)"
    then have i: "i < length r" by (simp add: list_Registry_def)
    from keyed have dist: "distinct (map fst r)" by (simp add: keyedById_def)
    from keyed i have key: "fst (r ! i) = id_Journal (snd (r ! i))"
      by (simp add: keyedById_def list_all_length)
    from i has have i': "i < length (Map_set (id_Journal J) J r)"
      by (simp add: length_Map_set)
    show "list_Registry (register J r) ! i =
           (if id_Journal (list_Registry r ! i) = id_Journal J then J else list_Registry r ! i)"
      using i i' key nth_Map_set [OF dist i, of "id_Journal J" J]
      by (simp add: list_Registry_def register_def)
  qed
next
  show "JournalRegistry [] = []" by (rule JournalRegistry_Nil)
  show "JournalRegistry (initial @ [J']) = register J' (JournalRegistry initial)"
    by (rule JournalRegistry_snoc)
  show "keyedById (JournalRegistry initial)" by (rule keyedById_JournalRegistry)
  have "map fst (JournalRegistry initial) = rev (remdups (rev (map id_Journal initial)))"
  proof (induction initial rule: rev_induct)
    case Nil
    show ?case by (simp add: JournalRegistry_Nil)
  next
    case (snoc j js)
    show ?case
    proof (cases "Map_has (id_Journal j) (JournalRegistry js)")
      case True
      then have "id_Journal j \<in> set (map id_Journal js)"
        using snoc by (simp add: Map_has_iff) (metis list.set_map set_remdups set_rev)
      with True snoc show ?thesis
        by (simp add: JournalRegistry_snoc register_def keys_Map_set)
    next
      case False
      then have "id_Journal j \<notin> set (map id_Journal js)"
        using snoc by (simp add: Map_has_iff) (metis list.set_map set_remdups set_rev)
      with False snoc show ?thesis
        by (simp add: JournalRegistry_snoc register_def length_Map_set_new)
    qed
  qed
  then show "map id_Journal (list_Registry (JournalRegistry initial))
        = rev (remdups (rev (map id_Journal initial)))"
    by (simp add: ids_list_Registry keyedById_JournalRegistry)
qed

theorem C8_register_replaces_in_place_witness:
  "keyedById
     (JournalRegistry
        [\<lparr>id_Journal = ''nature'', displayName = ''Nature'', endpoints = []\<rparr>,
         \<lparr>id_Journal = ''science'', displayName = ''Science'', endpoints = []\<rparr>])
   \<and> ''nature'' \<in> set (map id_Journal (list_Registry
        (JournalRegistry
           [\<lparr>id_Journal = ''nature'', displayName = ''Nature'', endpoints = []\<rparr>,
            \<lparr>id_Journal = ''science'', displayName = ''Science'', endpoints = []\<rparr>])))
   \<and> length (list_Registry
        (register \<lparr>id_Journal = ''nature'', displayName = ''Nature (updated)'', endpoints = []\<rparr>
           (JournalRegistry
              [\<lparr>id_Journal = ''nature'', displayName = ''Nature'', endpoints = []\<rparr>,
               \<lparr>id_Journal = ''science'', displayName = ''Science'', endpoints = []\<rparr>]))) = 2
   \<and> map id_Journal (list_Registry
        (register \<lparr>id_Journal = ''nature'', displayName = ''Nature (updated)'', endpoints = []\<rparr>
           (JournalRegistry
              [\<lparr>id_Journal = ''nature'', displayName = ''Nature'', endpoints = []\<rparr>,
               \<lparr>id_Journal = ''science'', displayName = ''Science'', endpoints = []\<rparr>])))
       = [''nature'', ''science'']
   \<and> list_Registry
        (JournalRegistry
           [\<lparr>id_Journal = ''nature'', displayName = ''Nature'', endpoints = []\<rparr>,
            \<lparr>id_Journal = ''science'', displayName = ''Science'', endpoints = []\<rparr>,
            \<lparr>id_Journal = ''nature'', displayName = ''Nature (updated)'', endpoints = []\<rparr>])
       = [\<lparr>id_Journal = ''nature'', displayName = ''Nature (updated)'', endpoints = []\<rparr>,
          \<lparr>id_Journal = ''science'', displayName = ''Science'', endpoints = []\<rparr>]"
proof -
  let ?nature = "\<lparr>id_Journal = ''nature'', displayName = ''Nature'', endpoints = []\<rparr>"
  let ?updated = "\<lparr>id_Journal = ''nature'', displayName = ''Nature (updated)'', endpoints = []\<rparr>"
  let ?science = "\<lparr>id_Journal = ''science'', displayName = ''Science'', endpoints = []\<rparr>"
  let ?R = "JournalRegistry [?nature, ?science]"
  have seeded: "list_Registry ?R = [?nature, ?science]"
    by code_simp
  have keyed: "keyedById ?R"
    by code_simp
  have dup: "list_Registry (JournalRegistry [?nature, ?science, ?updated]) = [?updated, ?science]"
    by code_simp
  have mem: "''nature'' \<in> set (map id_Journal (list_Registry ?R))"
    unfolding seeded by simp
  have mem': "id_Journal ?updated \<in> set (map id_Journal (list_Registry ?R))"
    using mem by simp
  from C8_register_replaces_in_place [of ?R ?updated "[?nature, ?science]" ?updated] keyed mem'
  have "length (list_Registry (register ?updated ?R)) = length (list_Registry ?R)"
    and "map id_Journal (list_Registry (register ?updated ?R)) = map id_Journal (list_Registry ?R)"
    by blast+
  then have "length (list_Registry (register ?updated ?R)) = 2"
    and "map id_Journal (list_Registry (register ?updated ?R)) = [''nature'', ''science'']"
    unfolding seeded by simp_all
  with keyed mem dup show ?thesis by blast
qed

section \<open>downloadBundles: claims\<close>




text \<open>
  C6. With a cap that is zero, negative or not an integer (a fraction, \<open>NaN\<close> or an
  infinity), \<open>downloadBundles\<close> fails with its own error and the call log is as it was
  before the call, whatever the candidate list and the collaborator are.
\<close>

theorem C6_downloadBundles_invalid_cap:
  "(q \<le> 0 \<or> q \<notin> \<int> \<longrightarrow>
      downloadBundles \<lparr>candidates = C, downloadBundle = fn, maxBundles = Some (Finite q)\<rparr> calls
        = (Inl (MaxBundlesError (Finite q)), calls))
   \<and> (n \<in> {NaN, PosInfinity, NegInfinity} \<longrightarrow>
      downloadBundles \<lparr>candidates = C, downloadBundle = fn, maxBundles = Some n\<rparr> calls
        = (Inl (MaxBundlesError n), calls))"
proof (intro conjI impI)
  assume "q \<le> 0 \<or> q \<notin> \<int>"
  then have "\<not> Number_isInteger (Finite q) \<or> lessThan_number (Finite q) (Finite 1)"
  proof
    assume "q \<le> 0" then show ?thesis by simp
  next
    assume "q \<notin> \<int>"
    then have "of_int \<lfloor>q\<rfloor> \<noteq> q" by (metis Ints_of_int)
    then show ?thesis by simp
  qed
  then show "downloadBundles \<lparr>candidates = C, downloadBundle = fn, maxBundles = Some (Finite q)\<rparr> calls
        = (Inl (MaxBundlesError (Finite q)), calls)"
    by (auto simp: downloadBundles_def)
next
  assume "n \<in> {NaN, PosInfinity, NegInfinity}"
  then have "\<not> Number_isInteger n" by auto
  then show "downloadBundles \<lparr>candidates = C, downloadBundle = fn, maxBundles = Some n\<rparr> calls
        = (Inl (MaxBundlesError n), calls)"
    by (simp add: downloadBundles_def)
qed

theorem C6_downloadBundles_invalid_cap_witness:
  "((0::rat) \<le> 0 \<or> (0::rat) \<notin> \<int>)
   \<and> downloadBundles
        \<lparr>candidates =
           [\<lparr>id_Article = ''a1'', title = ''T1'', abstract_Article = '''', fullText = '''', supplementaryUrl = ''''\<rparr>],
         downloadBundle = (\<lambda>log a. Inr (Promise 0 (Inl (Reason ''unreachable'')))),
         maxBundles = Some (Finite 0)\<rparr> []
       = (Inl (MaxBundlesError (Finite 0)), [])
   \<and> NaN \<in> {NaN, PosInfinity, NegInfinity}
   \<and> downloadBundles
        \<lparr>candidates =
           [\<lparr>id_Article = ''a1'', title = ''T1'', abstract_Article = '''', fullText = '''', supplementaryUrl = ''''\<rparr>],
         downloadBundle = (\<lambda>log a. Inr (Promise 0 (Inl (Reason ''unreachable'')))),
         maxBundles = Some NaN\<rparr> []
       = (Inl (MaxBundlesError NaN), [])"
proof -
  have zero: "(0::rat) \<le> 0 \<or> (0::rat) \<notin> \<int>" by simp
  have nan: "NaN \<in> {NaN, PosInfinity, NegInfinity}" by simp
  let ?C = "[\<lparr>id_Article = ''a1'', title = ''T1'', abstract_Article = '''', fullText = '''', supplementaryUrl = ''''\<rparr>]"
  let ?fn = "\<lambda>(log :: Article list) (a :: Article).
      Inr (Promise 0 (Inl (Reason ''unreachable'')))
        :: string error + (string error, SupplementaryBundle) promise"
  from C6_downloadBundles_invalid_cap [of 0 ?C ?fn "[]" NaN] zero nan
  show ?thesis by blast
qed

section \<open>identifyCandidates: claims\<close>

text \<open>
  C3. On a registry with no journal \<open>identifyCandidates\<close> fails with its own error
  and the call log of the fetch collaborator is as it was before the call. On a
  registry with journals it calls the collaborator once for each journal of
  \<open>registry.list()\<close>, in that order, with the journal's id and the page (1 when no
  page is given); it succeeds exactly when every one of these calls is fulfilled, and
  then returns one record per journal, holding the journal's id and the scanner's
  \<open>filterCandidates\<close> of the articles fetched for that journal.
\<close>

theorem C3_identifyCandidates_fetch_per_journal:
  assumes "p = (case pg of None \<Rightarrow> Finite 1 | Some n \<Rightarrow> n)"
  shows
  "(list_Registry R = [] \<longrightarrow>
      identifyCandidates \<lparr>registry = R, scanner = S, fetchArticles = fn, page = pg\<rparr> calls
        = (Inl EmptyRegistryError, calls))
   \<and> (list_Registry R \<noteq> [] \<longrightarrow>
        snd (identifyCandidates \<lparr>registry = R, scanner = S, fetchArticles = fn, page = pg\<rparr> calls)
          = calls @ map (\<lambda>j. (id_Journal j, p)) (list_Registry R)
        \<and> (fst (identifyCandidates \<lparr>registry = R, scanner = S, fetchArticles = fn, page = pg\<rparr> calls)
              = Inr rs
            \<longleftrightarrow> length rs = length (list_Registry R) \<and>
                (\<forall>i < length (list_Registry R). \<exists>articles.
                   outcome (fn (calls @ map (\<lambda>j. (id_Journal j, p)) (take i (list_Registry R)))
                               (id_Journal (list_Registry R ! i), p)) = Inr articles \<and>
                   rs ! i = \<lparr>journalId = id_Journal (list_Registry R ! i),
                             candidates_Result = filterCandidates S articles\<rparr>)))
   \<and> (pg = None \<longrightarrow> p = Finite 1)"
proof (intro conjI impI)
  assume "list_Registry R = []"
  then have "\<not> hasAny R" by (simp add: hasAny_iff)
  then show "identifyCandidates \<lparr>registry = R, scanner = S, fetchArticles = fn, page = pg\<rparr> calls
        = (Inl EmptyRegistryError, calls)"
    by (simp add: identifyCandidates_def)
next
  assume "list_Registry R \<noteq> []"
  then have any: "hasAny R" by (simp add: hasAny_iff)
  show "snd (identifyCandidates \<lparr>registry = R, scanner = S, fetchArticles = fn, page = pg\<rparr> calls)
          = calls @ map (\<lambda>j. (id_Journal j, p)) (list_Registry R)"
    unfolding identifyCandidates_run [OF any] assms by simp
  show "fst (identifyCandidates \<lparr>registry = R, scanner = S, fetchArticles = fn, page = pg\<rparr> calls)
              = Inr rs
            \<longleftrightarrow> length rs = length (list_Registry R) \<and>
                (\<forall>i < length (list_Registry R). \<exists>articles.
                   outcome (fn (calls @ map (\<lambda>j. (id_Journal j, p)) (take i (list_Registry R)))
                               (id_Journal (list_Registry R ! i), p)) = Inr articles \<and>
                   rs ! i = \<lparr>journalId = id_Journal (list_Registry R ! i),
                             candidates_Result = filterCandidates S articles\<rparr>)"
    by (rule identifyCandidates_Inr [OF any assms])
next
  assume "pg = None"
  with assms show "p = Finite 1" by simp
qed

theorem C3_identifyCandidates_fetch_per_journal_witness:
  "Finite 1 = (case None of None \<Rightarrow> Finite 1 | Some n \<Rightarrow> n)
   \<and> list_Registry (JournalRegistry []) = []
   \<and> identifyCandidates
        \<lparr>registry = JournalRegistry [], scanner = KeywordScanner [''code''],
         fetchArticles = (\<lambda>log key. Promise 0 (Inr []) :: (unit error, Article list) promise),
         page = None\<rparr> []
       = (Inl EmptyRegistryError, [])
   \<and> list_Registry
        (JournalRegistry
           [\<lparr>id_Journal = ''nature'', displayName = ''Nature'', endpoints = []\<rparr>,
            \<lparr>id_Journal = ''science'', displayName = ''Science'', endpoints = []\<rparr>]) \<noteq> []
   \<and> identifyCandidates
        \<lparr>registry =
           JournalRegistry
             [\<lparr>id_Journal = ''nature'', displayName = ''Nature'', endpoints = []\<rparr>,
              \<lparr>id_Journal = ''science'', displayName = ''Science'', endpoints = []\<rparr>],
         scanner = KeywordScanner [''code''],
         fetchArticles =
           (\<lambda>log key.
              if fst key = ''nature''
              then Promise 2
                     (Inr [\<lparr>id_Article = ''n1'', title = ''Code available'', abstract_Article = '''',
                            fullText = '''', supplementaryUrl = ''''\<rparr>,
                           \<lparr>id_Article = ''n2'', title = ''Ice cores'', abstract_Article = '''',
                            fullText = '''', supplementaryUrl = ''''\<rparr>])
              else Promise 1 (Inr []) :: (unit error, Article list) promise),
         page = None\<rparr> []
       = (Inr [\<lparr>journalId = ''nature'',
                candidates_Result =
                  [\<lparr>id_Article = ''n1'', title = ''Code available'', abstract_Article = '''',
                    fullText = '''', supplementaryUrl = ''''\<rparr>]\<rparr>,
               \<lparr>journalId = ''science'', candidates_Result = []\<rparr>],
          [(''nature'', Finite 1), (''science'', Finite 1)])"
proof -
  let ?nature = "\<lparr>id_Journal = ''nature'', displayName = ''Nature'', endpoints = []\<rparr>"
  let ?science = "\<lparr>id_Journal = ''science'', displayName = ''Science'', endpoints = []\<rparr>"
  let ?n1 = "\<lparr>id_Article = ''n1'', title = ''Code available'', abstract_Article = '''',
              fullText = '''', supplementaryUrl = ''''\<rparr>"
  let ?n2 = "\<lparr>id_Article = ''n2'', title = ''Ice cores'', abstract_Article = '''',
              fullText = '''', supplementaryUrl = ''''\<rparr>"
  let ?S = "KeywordScanner [''code'']"
  let ?none = "\<lambda>(log :: (string \<times> number) list) (key :: string \<times> number).
      Promise 0 (Inr []) :: (unit error, Article list) promise"
  let ?fetch = "\<lambda>(log :: (string \<times> number) list) (key :: string \<times> number).
      if fst key = ''nature'' then Promise 2 (Inr [?n1, ?n2])
      else Promise 1 (Inr []) :: (unit error, Article list) promise"
  let ?rs = "[\<lparr>journalId = ''nature'', candidates_Result = [?n1]\<rparr>,
              \<lparr>journalId = ''science'', candidates_Result = []\<rparr>]"
  have page: "Finite 1 = (case None of None \<Rightarrow> Finite 1 | Some n \<Rightarrow> n)" by simp
  have empty: "list_Registry (JournalRegistry []) = []"
    by code_simp
  have seeded: "list_Registry (JournalRegistry [?nature, ?science]) = [?nature, ?science]"
    by code_simp
  have scan: "filterCandidates ?S [?n1, ?n2] = [?n1]" "filterCandidates ?S [] = []"
    by code_simp+
  from C3_identifyCandidates_fetch_per_journal [OF page, of "JournalRegistry []" ?S ?none "[]"] empty
  have failed: "identifyCandidates
      \<lparr>registry = JournalRegistry [], scanner = ?S, fetchArticles = ?none, page = None\<rparr> []
      = (Inl EmptyRegistryError, [])"
    by blast
  have each: "\<forall>i < length [?nature, ?science]. \<exists>articles.
      outcome (?fetch ([] @ map (\<lambda>j. (id_Journal j, Finite 1)) (take i [?nature, ?science]))
                 (id_Journal ([?nature, ?science] ! i), Finite 1)) = Inr articles \<and>
      ?rs ! i = \<lparr>journalId = id_Journal ([?nature, ?science] ! i),
                  candidates_Result = filterCandidates ?S articles\<rparr>"
    by (simp add: less_Suc_eq scan)
  from C3_identifyCandidates_fetch_per_journal
         [OF page, of "JournalRegistry [?nature, ?science]" ?S ?fetch "[]" ?rs]
       each
  have "snd (identifyCandidates
          \<lparr>registry = JournalRegistry [?nature, ?science], scanner = ?S,
           fetchArticles = ?fetch, page = None\<rparr> [])
        = [(''nature'', Finite 1), (''science'', Finite 1)]"
    and "fst (identifyCandidates
          \<lparr>registry = JournalRegistry [?nature, ?science], scanner = ?S,
           fetchArticles = ?fetch, page = None\<rparr> []) = Inr ?rs"
    unfolding seeded by simp_all
  then have "identifyCandidates
          \<lparr>registry = JournalRegistry [?nature, ?science], scanner = ?S,
           fetchArticles = ?fetch, page = None\<rparr> []
        = (Inr ?rs, [(''nature'', Finite 1), (''science'', Finite 1)])"
    by (simp add: prod_eq_iff)
  with page empty failed seeded show ?thesis
    by simp
qed

text \<open>
  C9. When \<open>identifyCandidates\<close> succeeds, the \<open>journalId\<close> fields of its results
  are the ids of \<open>registry.list()\<close>, in the same order.
\<close>

theorem C9_results_in_registry_order:
  assumes "fst (identifyCandidates \<lparr>registry = R, scanner = S, fetchArticles = fn, page = pg\<rparr> calls)
             = Inr rs"
  shows "map journalId rs = map id_Journal (list_Registry R)"
proof (cases "hasAny R")
  case False
  with assms show ?thesis by (simp add: identifyCandidates_def)
next
  case True
  from assms identifyCandidates_Inr [OF True refl, of S fn pg calls rs]
  have len: "length rs = length (list_Registry R)"
    and each: "\<forall>i < length (list_Registry R). journalId (rs ! i) = id_Journal (list_Registry R ! i)"
    by auto
  show ?thesis
    by (rule nth_equalityI) (use len each in simp_all)
qed

theorem C9_results_in_registry_order_witness:
  "fst (identifyCandidates
        \<lparr>registry =
           JournalRegistry
             [\<lparr>id_Journal = ''nature'', displayName = ''Nature'', endpoints = []\<rparr>,
              \<lparr>id_Journal = ''science'', displayName = ''Science'', endpoints = []\<rparr>],
         scanner = KeywordScanner [''code''],
         fetchArticles =
           (\<lambda>log key.
              if fst key = ''nature'' then Promise 2 (Inr [])
              else Promise 1 (Inr []) :: (unit error, Article list) promise),
         page = Some (Finite 3)\<rparr> [])
     = Inr [\<lparr>journalId = ''nature'', candidates_Result = []\<rparr>,
            \<lparr>journalId = ''science'', candidates_Result = []\<rparr>]
   \<and> map journalId
         [\<lparr>journalId = ''nature'', candidates_Result = []\<rparr>,
          \<lparr>journalId = ''science'', candidates_Result = []\<rparr>]
       = map id_Journal
           (list_Registry
              (JournalRegistry
                 [\<lparr>id_Journal = ''nature'', displayName = ''Nature'', endpoints = []\<rparr>,
                  \<lparr>id_Journal = ''science'', displayName = ''Science'', endpoints = []\<rparr>]))"
proof -
  let ?nature = "\<lparr>id_Journal = ''nature'', displayName = ''Nature'', endpoints = []\<rparr>"
  let ?science = "\<lparr>id_Journal = ''science'', displayName = ''Science'', endpoints = []\<rparr>"
  let ?fetch = "\<lambda>(log :: (string \<times> number) list) (key :: string \<times> number).
      if fst key = ''nature'' then Promise 2 (Inr [])
      else Promise 1 (Inr []) :: (unit error, Article list) promise"
  let ?rs = "[\<lparr>journalId = ''nature'', candidates_Result = []\<rparr>,
              \<lparr>journalId = ''science'', candidates_Result = []\<rparr>]"
  have run: "fst (identifyCandidates
        \<lparr>registry = JournalRegistry [?nature, ?science], scanner = KeywordScanner [''code''],
         fetchArticles = ?fetch, page = Some (Finite 3)\<rparr> []) = Inr ?rs"
    by code_simp
  from run C9_results_in_registry_order [OF run] show ?thesis
    by (rule conjI)
qed

section \<open>Both orchestrators: claims\<close>

text \<open>
  C5. In \<open>downloadBundles\<close> and in \<open>identifyCandidates\<close> alike: when a call of the
  collaborator fails, the orchestrator fails with the very error of a failing call,
  unchanged. In \<open>downloadBundles\<close> a call fails by throwing or by returning a promise
  that is rejected: the result is the error of the first call that throws (the log
  ends with that call), and when no call throws, the reason of the rejected promise that
  settles first. In \<open>identifyCandidates\<close>, where an error thrown by the collaborator
  rejects the promise of the callback, it is the reason of the rejected promise that
  settles first. When the failing call is the only one that fails, the result is its
  error. No list of results is returned, and the call log holds each call once:
  nothing is called again.
\<close>

theorem C5_collaborator_failure_propagates:
  "(0 < N \<and> i < min N (length C) \<and>
    (dl (calls @ take i C) (C ! i) = Inl e \<or>
     (\<exists>pr. dl (calls @ take i C) (C ! i) = Inr pr \<and> outcome pr = Inl e)) \<longrightarrow>
      ((\<exists>j e'. j < min N (length C) \<and>
           (\<forall>k<j. \<exists>pr. dl (calls @ take k C) (C ! k) = Inr pr) \<and>
           dl (calls @ take j C) (C ! j) = Inl e' \<and>
           downloadBundles
             \<lparr>candidates = C, downloadBundle = dl, maxBundles = Some (Finite (of_nat N))\<rparr> calls
             = (Inl e', calls @ take (Suc j) C))
        \<or> ((\<forall>k < min N (length C). \<exists>pr. dl (calls @ take k C) (C ! k) = Inr pr) \<and>
            (\<exists>j e' pr. j < min N (length C) \<and>
               dl (calls @ take j C) (C ! j) = Inr pr \<and> outcome pr = Inl e' \<and>
               (\<forall>k < min N (length C). \<forall>q e''.
                  dl (calls @ take k C) (C ! k) = Inr q \<and> outcome q = Inl e'' \<longrightarrow>
                  settledAt pr \<le> settledAt q) \<and>
               downloadBundles
                 \<lparr>candidates = C, downloadBundle = dl, maxBundles = Some (Finite (of_nat N))\<rparr> calls
                 = (Inl e', calls @ take (min N (length C)) C))))
       \<and> ((\<forall>k < min N (length C). k \<noteq> i \<longrightarrow>
              (\<exists>pr b. dl (calls @ take k C) (C ! k) = Inr pr \<and> outcome pr = Inr b)) \<longrightarrow>
            fst (downloadBundles
                   \<lparr>candidates = C, downloadBundle = dl, maxBundles = Some (Finite (of_nat N))\<rparr> calls)
              = Inl e))
   \<and> (list_Registry R \<noteq> [] \<and> p = (case pg of None \<Rightarrow> Finite 1 | Some n \<Rightarrow> n) \<and>
       m < length (list_Registry R) \<and>
       outcome (fetch (fcalls @ map (\<lambda>j. (id_Journal j, p)) (take m (list_Registry R)))
                      (id_Journal (list_Registry R ! m), p)) = Inl r \<longrightarrow>
      (\<exists>j r'. j < length (list_Registry R) \<and>
          outcome (fetch (fcalls @ map (\<lambda>j. (id_Journal j, p)) (take j (list_Registry R)))
                         (id_Journal (list_Registry R ! j), p)) = Inl r' \<and>
          (\<forall>k < length (list_Registry R). \<forall>r''.
             outcome (fetch (fcalls @ map (\<lambda>j. (id_Journal j, p)) (take k (list_Registry R)))
                            (id_Journal (list_Registry R ! k), p)) = Inl r'' \<longrightarrow>
             settledAt (fetch (fcalls @ map (\<lambda>j. (id_Journal j, p)) (take j (list_Registry R)))
                              (id_Journal (list_Registry R ! j), p))
               \<le> settledAt (fetch (fcalls @ map (\<lambda>j. (id_Journal j, p)) (take k (list_Registry R)))
                                (id_Journal (list_Registry R ! k), p))) \<and>
          identifyCandidates \<lparr>registry = R, scanner = S, fetchArticles = fetch, page = pg\<rparr> fcalls
            = (Inl r', fcalls @ map (\<lambda>j. (id_Journal j, p)) (list_Registry R)))
      \<and> ((\<forall>k < length (list_Registry R). k \<noteq> m \<longrightarrow>
             (\<exists>as. outcome (fetch (fcalls @ map (\<lambda>j. (id_Journal j, p)) (take k (list_Registry R)))
                                  (id_Journal (list_Registry R ! k), p)) = Inr as)) \<longrightarrow>
           fst (identifyCandidates \<lparr>registry = R, scanner = S, fetchArticles = fetch, page = pg\<rparr> fcalls)
             = Inl r))"
proof (rule conjI)
  show "0 < N \<and> i < min N (length C) \<and>
    (dl (calls @ take i C) (C ! i) = Inl e \<or>
     (\<exists>pr. dl (calls @ take i C) (C ! i) = Inr pr \<and> outcome pr = Inl e)) \<longrightarrow>
      ((\<exists>j e'. j < min N (length C) \<and>
           (\<forall>k<j. \<exists>pr. dl (calls @ take k C) (C ! k) = Inr pr) \<and>
           dl (calls @ take j C) (C ! j) = Inl e' \<and>
           downloadBundles
             \<lparr>candidates = C, downloadBundle = dl, maxBundles = Some (Finite (of_nat N))\<rparr> calls
             = (Inl e', calls @ take (Suc j) C))
        \<or> ((\<forall>k < min N (length C). \<exists>pr. dl (calls @ take k C) (C ! k) = Inr pr) \<and>
            (\<exists>j e' pr. j < min N (length C) \<and>
               dl (calls @ take j C) (C ! j) = Inr pr \<and> outcome pr = Inl e' \<and>
               (\<forall>k < min N (length C). \<forall>q e''.
                  dl (calls @ take k C) (C ! k) = Inr q \<and> outcome q = Inl e'' \<longrightarrow>
                  settledAt pr \<le> settledAt q) \<and>
               downloadBundles
                 \<lparr>candidates = C, downloadBundle = dl, maxBundles = Some (Finite (of_nat N))\<rparr> calls
                 = (Inl e', calls @ take (min N (length C)) C))))
       \<and> ((\<forall>k < min N (length C). k \<noteq> i \<longrightarrow>
              (\<exists>pr b. dl (calls @ take k C) (C ! k) = Inr pr \<and> outcome pr = Inr b)) \<longrightarrow>
            fst (downloadBundles
                   \<lparr>candidates = C, downloadBundle = dl, maxBundles = Some (Finite (of_nat N))\<rparr> calls)
              = Inl e)"
  proof
    assume "0 < N \<and> i < min N (length C) \<and>
    (dl (calls @ take i C) (C ! i) = Inl e \<or>
     (\<exists>pr. dl (calls @ take i C) (C ! i) = Inr pr \<and> outcome pr = Inl e))"
    then have h: "0 < N" "i < min N (length C)"
      "dl (calls @ take i C) (C ! i) = Inl e \<or>
       (\<exists>pr. dl (calls @ take i C) (C ! i) = Inr pr \<and> outcome pr = Inl e)"
      by blast+
    show "((\<exists>j e'. j < min N (length C) \<and>
           (\<forall>k<j. \<exists>pr. dl (calls @ take k C) (C ! k) = Inr pr) \<and>
           dl (calls @ take j C) (C ! j) = Inl e' \<and>
           downloadBundles
             \<lparr>candidates = C, downloadBundle = dl, maxBundles = Some (Finite (of_nat N))\<rparr> calls
             = (Inl e', calls @ take (Suc j) C))
        \<or> ((\<forall>k < min N (length C). \<exists>pr. dl (calls @ take k C) (C ! k) = Inr pr) \<and>
            (\<exists>j e' pr. j < min N (length C) \<and>
               dl (calls @ take j C) (C ! j) = Inr pr \<and> outcome pr = Inl e' \<and>
               (\<forall>k < min N (length C). \<forall>q e''.
                  dl (calls @ take k C) (C ! k) = Inr q \<and> outcome q = Inl e'' \<longrightarrow>
                  settledAt pr \<le> settledAt q) \<and>
               downloadBundles
                 \<lparr>candidates = C, downloadBundle = dl, maxBundles = Some (Finite (of_nat N))\<rparr> calls
                 = (Inl e', calls @ take (min N (length C)) C))))
       \<and> ((\<forall>k < min N (length C). k \<noteq> i \<longrightarrow>
              (\<exists>pr b. dl (calls @ take k C) (C ! k) = Inr pr \<and> outcome pr = Inr b)) \<longrightarrow>
            fst (downloadBundles
                   \<lparr>candidates = C, downloadBundle = dl, maxBundles = Some (Finite (of_nat N))\<rparr> calls)
              = Inl e)"
      by (rule downloadBundles_failure [where N = N and i = i and C = C and fn = dl and calls = calls and e = e, OF h])
  qed
next
  show "list_Registry R \<noteq> [] \<and> p = (case pg of None \<Rightarrow> Finite 1 | Some n \<Rightarrow> n) \<and>
       m < length (list_Registry R) \<and>
       outcome (fetch (fcalls @ map (\<lambda>j. (id_Journal j, p)) (take m (list_Registry R)))
                      (id_Journal (list_Registry R ! m), p)) = Inl r \<longrightarrow>
      (\<exists>j r'. j < length (list_Registry R) \<and>
          outcome (fetch (fcalls @ map (\<lambda>j. (id_Journal j, p)) (take j (list_Registry R)))
                         (id_Journal (list_Registry R ! j), p)) = Inl r' \<and>
          (\<forall>k < length (list_Registry R). \<forall>r''.
             outcome (fetch (fcalls @ map (\<lambda>j. (id_Journal j, p)) (take k (list_Registry R)))
                            (id_Journal (list_Registry R ! k), p)) = Inl r'' \<longrightarrow>
             settledAt (fetch (fcalls @ map (\<lambda>j. (id_Journal j, p)) (take j (list_Registry R)))
                              (id_Journal (list_Registry R ! j), p))
               \<le> settledAt (fetch (fcalls @ map (\<lambda>j. (id_Journal j, p)) (take k (list_Registry R)))
                                (id_Journal (list_Registry R ! k), p))) \<and>
          identifyCandidates \<lparr>registry = R, scanner = S, fetchArticles = fetch, page = pg\<rparr> fcalls
            = (Inl r', fcalls @ map (\<lambda>j. (id_Journal j, p)) (list_Registry R)))
      \<and> ((\<forall>k < length (list_Registry R). k \<noteq> m \<longrightarrow>
             (\<exists>as. outcome (fetch (fcalls @ map (\<lambda>j. (id_Journal j, p)) (take k (list_Registry R)))
                                  (id_Journal (list_Registry R ! k), p)) = Inr as)) \<longrightarrow>
           fst (identifyCandidates \<lparr>registry = R, scanner = S, fetchArticles = fetch, page = pg\<rparr> fcalls)
             = Inl r)"
  proof
    assume "list_Registry R \<noteq> [] \<and> p = (case pg of None \<Rightarrow> Finite 1 | Some n \<Rightarrow> n) \<and>
       m < length (list_Registry R) \<and>
       outcome (fetch (fcalls @ map (\<lambda>j. (id_Journal j, p)) (take m (list_Registry R)))
                      (id_Journal (list_Registry R ! m), p)) = Inl r"
    then have h: "list_Registry R \<noteq> []" "p = (case pg of None \<Rightarrow> Finite 1 | Some n \<Rightarrow> n)"
      "m < length (list_Registry R)"
      "outcome (fetch (fcalls @ map (\<lambda>j. (id_Journal j, p)) (take m (list_Registry R)))
                      (id_Journal (list_Registry R ! m), p)) = Inl r"
      by blast+
    show "(\<exists>j r'. j < length (list_Registry R) \<and>
          outcome (fetch (fcalls @ map (\<lambda>j. (id_Journal j, p)) (take j (list_Registry R)))
                         (id_Journal (list_Registry R ! j), p)) = Inl r' \<and>
          (\<forall>k < length (list_Registry R). \<forall>r''.
             outcome (fetch (fcalls @ map (\<lambda>j. (id_Journal j, p)) (take k (list_Registry R)))
                            (id_Journal (list_Registry R ! k), p)) = Inl r'' \<longrightarrow>
             settledAt (fetch (fcalls @ map (\<lambda>j. (id_Journal j, p)) (take j (list_Registry R)))
                              (id_Journal (list_Registry R ! j), p))
               \<le> settledAt (fetch (fcalls @ map (\<lambda>j. (id_Journal j, p)) (take k (list_Registry R)))
                                (id_Journal (list_Registry R ! k), p))) \<and>
          identifyCandidates \<lparr>registry = R, scanner = S, fetchArticles = fetch, page = pg\<rparr> fcalls
            = (Inl r', fcalls @ map (\<lambda>j. (id_Journal j, p)) (list_Registry R)))
      \<and> ((\<forall>k < length (list_Registry R). k \<noteq> m \<longrightarrow>
             (\<exists>as. outcome (fetch (fcalls @ map (\<lambda>j. (id_Journal j, p)) (take k (list_Registry R)))
                                  (id_Journal (list_Registry R ! k), p)) = Inr as)) \<longrightarrow>
           fst (identifyCandidates \<lparr>registry = R, scanner = S, fetchArticles = fetch, page = pg\<rparr> fcalls)
             = Inl r)"
      by (rule identifyCandidates_failure [where R = R and p = p and pg = pg and i = m and fn = fetch and calls = fcalls and e = r and S = S, OF h])
  qed
qed

theorem C5_collaborator_failure_propagates_witness:
  "(0 < (5::nat) \<and> 1 < min (5::nat) (length
       [\<lparr>id_Article = ''a1'', title = ''T1'', abstract_Article = '''', fullText = '''', supplementaryUrl = ''''\<rparr>,
        \<lparr>id_Article = ''bad'', title = ''T2'', abstract_Article = '''', fullText = '''', supplementaryUrl = ''''\<rparr>,
        \<lparr>id_Article = ''a3'', title = ''T3'', abstract_Article = '''', fullText = '''', supplementaryUrl = ''''\<rparr>]))
   \<and> fst (downloadBundles
        \<lparr>candidates =
           [\<lparr>id_Article = ''a1'', title = ''T1'', abstract_Article = '''', fullText = '''', supplementaryUrl = ''''\<rparr>,
            \<lparr>id_Article = ''bad'', title = ''T2'', abstract_Article = '''', fullText = '''', supplementaryUrl = ''''\<rparr>,
            \<lparr>id_Article = ''a3'', title = ''T3'', abstract_Article = '''', fullText = '''', supplementaryUrl = ''''\<rparr>],
         downloadBundle =
           (\<lambda>log a.
              if id_Article a = ''bad'' then Inl (Reason ''Network failure'')
              else Inr (Promise 2
                     (Inr \<lparr>articleId = id_Article a, articleTitle = title a, files = [],
                           tempDir = ''/tmp''\<rparr>))),
         maxBundles = Some (Finite 5)\<rparr> [])
       = Inl (Reason ''Network failure'')
   \<and> list_Registry
        (JournalRegistry
           [\<lparr>id_Journal = ''nature'', displayName = ''Nature'', endpoints = []\<rparr>,
            \<lparr>id_Journal = ''science'', displayName = ''Science'', endpoints = []\<rparr>]) \<noteq> []
   \<and> identifyCandidates
        \<lparr>registry =
           JournalRegistry
             [\<lparr>id_Journal = ''nature'', displayName = ''Nature'', endpoints = []\<rparr>,
              \<lparr>id_Journal = ''science'', displayName = ''Science'', endpoints = []\<rparr>],
         scanner = KeywordScanner [''code''],
         fetchArticles =
           (\<lambda>log key.
              if fst key = ''science'' then Promise 1 (Inl (Reason ''Network timeout''))
              else Promise 3 (Inr [])),
         page = None\<rparr> []
       = (Inl (Reason ''Network timeout''), [(''nature'', Finite 1), (''science'', Finite 1)])"
proof -
  let ?a1 = "\<lparr>id_Article = ''a1'', title = ''T1'', abstract_Article = '''', fullText = '''', supplementaryUrl = ''''\<rparr>"
  let ?a2 = "\<lparr>id_Article = ''bad'', title = ''T2'', abstract_Article = '''', fullText = '''', supplementaryUrl = ''''\<rparr>"
  let ?a3 = "\<lparr>id_Article = ''a3'', title = ''T3'', abstract_Article = '''', fullText = '''', supplementaryUrl = ''''\<rparr>"
  let ?C = "[?a1, ?a2, ?a3]"
  let ?dl = "\<lambda>(log :: Article list) a.
      if id_Article a = ''bad'' then Inl (Reason ''Network failure'')
      else Inr (Promise 2
             (Inr \<lparr>articleId = id_Article a, articleTitle = title a, files = [],
                   tempDir = ''/tmp''\<rparr>)) :: string error + (string error, SupplementaryBundle) promise"
  let ?nature = "\<lparr>id_Journal = ''nature'', displayName = ''Nature'', endpoints = []\<rparr>"
  let ?science = "\<lparr>id_Journal = ''science'', displayName = ''Science'', endpoints = []\<rparr>"
  let ?R = "JournalRegistry [?nature, ?science]"
  let ?S = "KeywordScanner [''code'']"
  let ?fetch = "\<lambda>(log :: (string \<times> number) list) (key :: string \<times> number).
      if fst key = ''science'' then Promise 1 (Inl (Reason ''Network timeout''))
      else Promise 3 (Inr []) :: (string error, Article list) promise"
  note inst = C5_collaborator_failure_propagates
    [where N = 5 and i = 1 and C = ?C and dl = ?dl and calls = "[]"
       and e = "Reason ''Network failure''"
       and R = ?R and p = "Finite 1" and pg = None and m = 1 and fetch = ?fetch
       and fcalls = "[]" and r = "Reason ''Network timeout''" and S = ?S]
  have seeded: "list_Registry ?R = [?nature, ?science]"
    by code_simp
  have hD: "0 < (5::nat) \<and> 1 < min 5 (length ?C) \<and>
      (?dl ([] @ take 1 ?C) (?C ! 1) = Inl (Reason ''Network failure'') \<or>
       (\<exists>pr. ?dl ([] @ take 1 ?C) (?C ! 1) = Inr pr \<and> outcome pr = Inl (Reason ''Network failure'')))"
    by simp
  have oD: "\<forall>k < min 5 (length ?C). k \<noteq> 1 \<longrightarrow>
      (\<exists>pr b. ?dl ([] @ take k ?C) (?C ! k) = Inr pr \<and> outcome pr = Inr b)"
    by (simp add: less_Suc_eq numeral_3_eq_3)
  have hI: "list_Registry ?R \<noteq> [] \<and> Finite 1 = (case None of None \<Rightarrow> Finite 1 | Some n \<Rightarrow> n) \<and>
      1 < length (list_Registry ?R) \<and>
      outcome (?fetch ([] @ map (\<lambda>j. (id_Journal j, Finite 1)) (take 1 (list_Registry ?R)))
                 (id_Journal (list_Registry ?R ! 1), Finite 1)) = Inl (Reason ''Network timeout'')"
    unfolding seeded by simp
  have oI: "\<forall>k < length (list_Registry ?R). k \<noteq> 1 \<longrightarrow>
      (\<exists>as. outcome (?fetch ([] @ map (\<lambda>j. (id_Journal j, Finite 1)) (take k (list_Registry ?R)))
                 (id_Journal (list_Registry ?R ! k), Finite 1)) = Inr as)"
    unfolding seeded by (simp add: less_Suc_eq)
  from inst hD oD
  have "fst (downloadBundles \<lparr>candidates = ?C, downloadBundle = ?dl,
                 maxBundles = Some (Finite (of_nat 5))\<rparr> []) = Inl (Reason ''Network failure'')"
    by blast
  then have dlrun: "fst (downloadBundles \<lparr>candidates = ?C, downloadBundle = ?dl,
                 maxBundles = Some (Finite 5)\<rparr> []) = Inl (Reason ''Network failure'')"
    by simp
  from inst hI oI obtain r' where
    "identifyCandidates \<lparr>registry = ?R, scanner = ?S, fetchArticles = ?fetch, page = None\<rparr> []
       = (Inl r', [] @ map (\<lambda>j. (id_Journal j, Finite 1)) (list_Registry ?R))"
    and "fst (identifyCandidates \<lparr>registry = ?R, scanner = ?S, fetchArticles = ?fetch, page = None\<rparr> [])
       = Inl (Reason ''Network timeout'')"
    by blast
  then have idc: "identifyCandidates \<lparr>registry = ?R, scanner = ?S, fetchArticles = ?fetch, page = None\<rparr> []
       = (Inl (Reason ''Network timeout''), [(''nature'', Finite 1), (''science'', Finite 1)])"
    unfolding seeded by simp
  from hD hI have "0 < (5::nat) \<and> 1 < min (5::nat) (length ?C)" and "list_Registry ?R \<noteq> []"
    by blast+
  with dlrun idc show ?thesis by blast
qed

end
